theory Spec2Isabelle
  imports Main "HOL-Library.Sublist"
begin

section \<open>Python strings\<close>

text \<open>
  A Python \<open>str\<close> is a sequence of Unicode code points, so a character is modelled by
  its code point and a string by the list of its code points. ASCII literals are
  written through \<open>ustr\<close>.
\<close>

type_synonym pychar = nat
type_synonym pystr = "nat list"

definition ord :: "char \<Rightarrow> pychar" where
  "ord c = of_char c"

definition ustr :: "string \<Rightarrow> pystr" where
  "ustr s = map ord s"

text \<open>
  \<open>str.isspace\<close> on one character, which is also what \<open>\s\<close> matches in a \<open>str\<close>
  pattern and what \<open>str.strip()\<close> removes: the Unicode white space characters.
\<close>

definition is_space :: "pychar \<Rightarrow> bool" where
  "is_space c \<longleftrightarrow>
     (9 \<le> c \<and> c \<le> 13) \<or> (28 \<le> c \<and> c \<le> 32) \<or> c = 133 \<or> c = 160 \<or> c = 5760 \<or>
     (8192 \<le> c \<and> c \<le> 8202) \<or> c = 8232 \<or> c = 8233 \<or> c = 8239 \<or> c = 8287 \<or>
     c = 12288"

text \<open>\<open>text.replace("\n", " ")\<close>: every newline becomes one space.\<close>

definition replace_newlines :: "pystr \<Rightarrow> pystr" where
  "replace_newlines s = map (\<lambda>c. if c = 10 then 32 else c) s"

text \<open>\<open>text.strip()\<close>: white space is dropped at the left end, then at the right end.\<close>

fun rstrip :: "pystr \<Rightarrow> pystr" where
  "rstrip [] = []"
| "rstrip (c # cs) = (if is_space c \<and> rstrip cs = [] then [] else c # rstrip cs)"

definition strip :: "pystr \<Rightarrow> pystr" where
  "strip s = rstrip (dropWhile is_space s)"

section \<open>Regular expressions as the source uses them\<close>

text \<open>
  The patterns of the source use literals, character classes, \<open>*\<close> and \<open>+\<close> over a
  character class, sequence and alternation. \<open>matches r s\<close> lists what is left of \<open>s\<close>
  after each way \<open>r\<close> can match a prefix of it, in the order in which Python's
  backtracking matcher tries them (greedy repetition, left alternative first); the
  match Python reports is the first one.
\<close>

datatype re =
    Chr pychar
  | Str pystr
  | Cls "pychar \<Rightarrow> bool"
  | Star "pychar \<Rightarrow> bool"
  | Plus "pychar \<Rightarrow> bool"
  | Seq re re
  | Alt re re

fun star_matches :: "(pychar \<Rightarrow> bool) \<Rightarrow> pystr \<Rightarrow> pystr list" where
  "star_matches p [] = [[]]"
| "star_matches p (x # xs) = (if p x then star_matches p xs else []) @ [x # xs]"

primrec matches :: "re \<Rightarrow> pystr \<Rightarrow> pystr list" where
  "matches (Chr c) s = (case s of [] \<Rightarrow> [] | x # xs \<Rightarrow> if x = c then [xs] else [])"
| "matches (Str w) s = (if prefix w s then [drop (length w) s] else [])"
| "matches (Cls p) s = (case s of [] \<Rightarrow> [] | x # xs \<Rightarrow> if p x then [xs] else [])"
| "matches (Star p) s = star_matches p s"
| "matches (Plus p) s = (case s of [] \<Rightarrow> [] | x # xs \<Rightarrow> if p x then star_matches p xs else [])"
| "matches (Seq r1 r2) s = concat (map (matches r2) (matches r1 s))"
| "matches (Alt r1 r2) s = matches r1 s @ matches r2 s"

definition re_match :: "re \<Rightarrow> pystr \<Rightarrow> pystr option" where
  "re_match r s = (case matches r s of [] \<Rightarrow> None | t # _ \<Rightarrow> Some t)"

text \<open>
  \<open>re.sub(pattern, repl, text)\<close> for a pattern that matches no empty string (none of
  the source's patterns does): scanning from the left, the first match at the current
  position is replaced and the scan goes on behind it; where nothing matches, the
  character is kept.
\<close>

fun re_sub :: "re \<Rightarrow> pystr \<Rightarrow> pystr \<Rightarrow> pystr" where
  "re_sub r repl [] = []"
| "re_sub r repl (c # cs) =
     (case re_match r (c # cs) of
        None \<Rightarrow> c # re_sub r repl cs
      | Some t \<Rightarrow>
          if length t \<le> length cs then repl @ re_sub r repl t
          else c # re_sub r repl cs)"

fun re_search :: "re \<Rightarrow> pystr \<Rightarrow> bool" where
  "re_search r [] = (re_match r [] \<noteq> None)"
| "re_search r (c # cs) = (re_match r (c # cs) \<noteq> None \<or> re_search r cs)"

text \<open>A pattern that, by its shape, matches no empty string.\<close>

primrec never_empty :: "re \<Rightarrow> bool" where
  "never_empty (Chr c) = True"
| "never_empty (Str w) = (w \<noteq> [])"
| "never_empty (Cls p) = True"
| "never_empty (Star p) = False"
| "never_empty (Plus p) = True"
| "never_empty (Seq r1 r2) = (never_empty r1 \<or> never_empty r2)"
| "never_empty (Alt r1 r2) = (never_empty r1 \<and> never_empty r2)"

text \<open>The six patterns of \<open>text_extractor.py\<close>.\<close>

definition dot :: "pychar \<Rightarrow> bool" where
  "dot c \<longleftrightarrow> c \<noteq> 10"

definition non_space :: "pychar \<Rightarrow> bool" where
  "non_space c \<longleftrightarrow> \<not> is_space c"

definition name_char :: "pychar \<Rightarrow> bool" where
  "name_char c \<longleftrightarrow> (97 \<le> c \<and> c \<le> 122) \<or> c = 95 \<or> c = 38 \<or> c = 43 \<or> c = 45"

definition tag_re :: re where
  "tag_re = Seq (Chr 60) (Seq (Star (\<lambda>c. c \<noteq> 62)) (Chr 62))"

definition url_re :: re where
  "url_re = Alt (Seq (Str (ustr ''http'')) (Plus non_space))
                (Seq (Str (ustr ''www'')) (Seq (Cls dot) (Plus non_space)))"

definition copyright_re :: re where
  "copyright_re = Seq (Str (ustr ''Copyright'')) (Star dot)"

definition token_re :: re where
  "token_re = Seq (Chr 58) (Seq (Plus name_char) (Chr 58))"

definition ws_re :: re where
  "ws_re = Plus is_space"

section \<open>Text normalisation\<close>

text \<open>
  \<open>emoji.demojize\<close> belongs to a library outside the repository, so
  \<open>preprocess_text\<close> takes it as the parameter \<open>demojize\<close>. \<open>before_demojize\<close> names
  the text after the first four statements, which is what demojize receives.
\<close>

definition before_demojize :: "pystr \<Rightarrow> pystr" where
  "before_demojize s =
     replace_newlines (re_sub copyright_re [] (re_sub url_re [] (re_sub tag_re [] s)))"

definition preprocess_text :: "(pystr \<Rightarrow> pystr) \<Rightarrow> pystr \<Rightarrow> pystr" where
  "preprocess_text demojize s =
     (let s1 = re_sub tag_re [] s;
          s2 = re_sub url_re [] s1;
          s3 = re_sub copyright_re [] s2;
          s4 = replace_newlines s3;
          s5 = demojize s4
      in re_sub token_re [] s5)"

text \<open>
  What \<open>download_file\<close> does to the body before it stores it: \<open>preprocess_text\<close>,
  then \<open>re.sub(r"\s+", " ", text)\<close>, then \<open>strip\<close>.
\<close>

definition collapse_whitespace :: "pystr \<Rightarrow> pystr" where
  "collapse_whitespace s = re_sub ws_re [32] s"

definition normalize_and_collapse :: "(pystr \<Rightarrow> pystr) \<Rightarrow> pystr \<Rightarrow> pystr" where
  "normalize_and_collapse demojize s = strip (collapse_whitespace (preprocess_text demojize s))"

subsection \<open>A table-driven demojize\<close>

text \<open>
  Modelled from the spec: the emoji library is not part of the repository. The spec
  describes its \<open>demojize\<close> step as converting each emoji glyph to its textual
  \<open>:name:\<close> representation; here the glyphs and their names come from a table, the
  longest glyph sequence that starts at the current position is replaced, and every
  other character is kept. It instantiates the parameter of \<open>preprocess_text\<close> at
  concrete inputs.
\<close>

type_synonym emoji_table = "(pystr \<times> pystr) list"

definition emoji_at :: "emoji_table \<Rightarrow> pystr \<Rightarrow> (pystr \<times> pystr) option" where
  "emoji_at tbl s =
     foldl (\<lambda>best (k, n).
              if k \<noteq> [] \<and> prefix k s \<and>
                 (case best of None \<Rightarrow> True | Some (k', _) \<Rightarrow> length k' < length k)
              then Some (k, n) else best)
           None tbl"

fun demojize_with :: "emoji_table \<Rightarrow> pystr \<Rightarrow> pystr" where
  "demojize_with tbl [] = []"
| "demojize_with tbl (c # cs) =
     (case emoji_at tbl (c # cs) of
        None \<Rightarrow> c # demojize_with tbl cs
      | Some (k, n) \<Rightarrow> n @ demojize_with tbl (drop (length k - 1) cs))"

text \<open>A few entries of the library's table: party popper, first place medal, thumbs up.\<close>

definition emoji_data :: emoji_table where
  "emoji_data =
     [([127881], ustr '':party_popper:''),
      ([129351], ustr '':1st_place_medal:''),
      ([128077], ustr '':thumbs_up:''),
      ([128077, 127997], ustr '':thumbs_up_medium_skin_tone:'')]"

subsection \<open>Properties of texts\<close>

text \<open>
  A text is collapsed when its only white space is the single space and no two spaces
  are neighbours; it has no constructs left when none of the four removal patterns
  matches anywhere in it and demojize leaves it as it is. \<open>names_avoid c\<close> says that
  no name of the emoji table holds the character \<open>c\<close>.
\<close>

definition names_avoid :: "pychar \<Rightarrow> emoji_table \<Rightarrow> bool" where
  "names_avoid c tbl \<longleftrightarrow> list_all (\<lambda>(k, n). c \<notin> set n) tbl"

fun collapsed :: "pystr \<Rightarrow> bool" where
  "collapsed [] = True"
| "collapsed (c # cs) =
     ((if is_space c then c = 32 \<and> (cs = [] \<or> \<not> is_space (hd cs)) else True) \<and> collapsed cs)"

definition no_constructs :: "(pystr \<Rightarrow> pystr) \<Rightarrow> pystr \<Rightarrow> bool" where
  "no_constructs demojize t \<longleftrightarrow>
     \<not> re_search tag_re t \<and> \<not> re_search url_re t \<and> \<not> re_search copyright_re t \<and>
     \<not> re_search token_re t \<and> demojize t = t"

section \<open>Paths and names\<close>

text \<open>\<open>s.split(sep)\<close> for a separator of one character; the result is never empty.\<close>

fun split :: "pychar \<Rightarrow> pystr \<Rightarrow> pystr list" where
  "split sep [] = [[]]"
| "split sep (c # cs) =
     (if c = sep then [] # split sep cs
      else (case split sep cs of [] \<Rightarrow> [[c]] | p # ps \<Rightarrow> (c # p) # ps))"

text \<open>\<open>os.path.basename\<close>: what follows the last slash.\<close>

definition basename :: "pystr \<Rightarrow> pystr" where
  "basename p = rev (takeWhile (\<lambda>c. c \<noteq> 47) (rev p))"

definition endswith :: "pystr \<Rightarrow> pystr \<Rightarrow> bool" where
  "endswith s suf \<longleftrightarrow> suffix suf s"

section \<open>JSON as the sink writes it\<close>

text \<open>
  \<open>json.dumps\<close> with its default arguments on a dictionary whose keys and values are
  strings: every character outside the printable ASCII range, the quote and the
  backslash are escaped, a code point above \<open>0xFFFF\<close> as a surrogate pair.
\<close>

definition hex_digit :: "nat \<Rightarrow> pychar" where
  "hex_digit d = (if d < 10 then 48 + d else 87 + d)"

definition hex4 :: "nat \<Rightarrow> pystr" where
  "hex4 n = [hex_digit (n div 4096 mod 16), hex_digit (n div 256 mod 16),
             hex_digit (n div 16 mod 16), hex_digit (n mod 16)]"

definition escape_char :: "pychar \<Rightarrow> pystr" where
  "escape_char c =
     (if c = 34 then [92, 34]
      else if c = 92 then [92, 92]
      else if c = 10 then [92, 110]
      else if c = 13 then [92, 114]
      else if c = 9 then [92, 116]
      else if c = 8 then [92, 98]
      else if c = 12 then [92, 102]
      else if 32 \<le> c \<and> c \<le> 126 then [c]
      else if c < 65536 then [92, 117] @ hex4 c
      else [92, 117] @ hex4 (55296 + (c - 65536) div 1024 mod 1024) @
           [92, 117] @ hex4 (56320 + (c - 65536) mod 1024))"

definition dumps_str :: "pystr \<Rightarrow> pystr" where
  "dumps_str s = [34] @ concat (map escape_char s) @ [34]"

fun dumps_items :: "(pystr \<times> pystr) list \<Rightarrow> pystr" where
  "dumps_items [] = []"
| "dumps_items [(k, v)] = dumps_str k @ [58, 32] @ dumps_str v"
| "dumps_items ((k, v) # kvs) = dumps_str k @ [58, 32] @ dumps_str v @ [44, 32] @ dumps_items kvs"

definition json_dumps :: "(pystr \<times> pystr) list \<Rightarrow> pystr" where
  "json_dumps d = [123] @ dumps_items d @ [125]"

section \<open>The fetcher and the crawler\<close>

text \<open>
  The network is a function from requests to responses: every \<open>requests.get\<close> of the
  model completes. A response carries the status code, \<open>response.text\<close> as the Python
  value it is (the source tests it against \<open>None\<close> and \<open>str\<close>) and, for a listing,
  the entries of \<open>response.json()\<close> in the shape the listing API documents, each with a
  name, a path, a type and a download URL.
\<close>

datatype pyobj = PyNone | PyStr pystr | PyOther

record dir_entry =
  entry_name :: pystr
  entry_path :: pystr
  entry_type :: pystr
  download_url :: pystr

record response =
  status_code :: int
  response_text :: pyobj
  response_json :: "dir_entry list"

datatype request = Get pystr "(pystr \<times> pystr) list"

type_synonym http = "request \<Rightarrow> response"

record repo_info =
  owner :: pystr
  repo :: pystr
  path :: pystr

text \<open>Each \<open>print\<close> of the source is one message, with the values it interpolates.\<close>

datatype message =
    Skipping
  | Processing pystr pystr
  | Downloading pystr
  | Url pystr
  | Finished pystr
  | ErrorStatus int
  | ErrorTextNotFound pystr

text \<open>
  What a run changes: the requests issued so far, the content of the JSONL file and the
  console, each in the order of the events.
\<close>

record state =
  requests :: "request list"
  jsonl_file :: pystr
  console :: "message list"

definition emit :: "message \<Rightarrow> state \<Rightarrow> state" where
  "emit m st = st\<lparr>console := console st @ [m]\<rparr>"

definition issue :: "request \<Rightarrow> state \<Rightarrow> state" where
  "issue rq st = st\<lparr>requests := requests st @ [rq]\<rparr>"

definition file_dict :: "pystr \<Rightarrow> repo_info \<Rightarrow> pystr \<Rightarrow> (pystr \<times> pystr) list" where
  "file_dict filename repo_info txt =
     [(ustr ''title'', filename),
      (ustr ''repo_owner'', owner repo_info),
      (ustr ''repo_name'', repo repo_info),
      (ustr ''text'', txt)]"

text \<open>
  The sink: the file is opened for appending and receives \<open>json.dumps(file_dict)\<close> and
  a newline.
\<close>

definition sink_append :: "(pystr \<times> pystr) list \<Rightarrow> pystr \<Rightarrow> pystr" where
  "sink_append d content = content @ json_dumps d @ [10]"

definition download_file ::
  "http \<Rightarrow> (pystr \<Rightarrow> pystr) \<Rightarrow> pystr \<Rightarrow> repo_info \<Rightarrow> state \<Rightarrow> state" where
  "download_file net demojize url repo_info st =
     (let st1 = issue (Get url []) st;
          resp = net (Get url []);
          filename = last (split 47 url)
      in case response_text resp of
           PyStr body \<Rightarrow>
             st1\<lparr>jsonl_file :=
                    sink_append (file_dict filename repo_info (normalize_and_collapse demojize body))
                      (jsonl_file st1)\<rparr>
         | _ \<Rightarrow> emit (ErrorTextNotFound url) st1)"

definition base_url :: "repo_info \<Rightarrow> pystr" where
  "base_url repo_info =
     ustr ''https://api.github.com/repos/'' @ owner repo_info @ [47] @ repo repo_info @
     ustr ''/contents/''"

definition is_markdown :: "dir_entry \<Rightarrow> bool" where
  "is_markdown f \<longleftrightarrow>
     entry_type f = ustr ''file'' \<and>
     (endswith (entry_name f) (ustr ''.mdx'') \<or> endswith (entry_name f) (ustr ''.md''))"

text \<open>
  \<open>process_directory\<close> recurses as deep as the listings lead it, so the model counts
  the depth down: \<open>None\<close> means the bound was too small for this tree.
  \<open>process_entries\<close> is the \<open>for\<close> loop over one listing.
\<close>

fun process_directory ::
    "nat \<Rightarrow> http \<Rightarrow> (pystr \<Rightarrow> pystr) \<Rightarrow> (pystr \<times> pystr) list \<Rightarrow> repo_info \<Rightarrow>
     pystr \<Rightarrow> state \<Rightarrow> state option"
  and process_entries ::
    "nat \<Rightarrow> http \<Rightarrow> (pystr \<Rightarrow> pystr) \<Rightarrow> (pystr \<times> pystr) list \<Rightarrow> repo_info \<Rightarrow>
     dir_entry list \<Rightarrow> state \<Rightarrow> state option"
where
  "process_directory 0 net demojize headers repo_info p st = None"
| "process_directory (Suc n) net demojize headers repo_info p st =
     (if basename p = ustr ''zh'' then Some (emit Skipping st)
      else
        let st1 = emit (Processing p (repo repo_info)) st;
            rq = Get (base_url repo_info @ p) headers;
            st2 = issue rq st1;
            resp = net rq
        in if status_code resp = 200 then
             (case process_entries n net demojize headers repo_info (response_json resp) st2 of
                None \<Rightarrow> None
              | Some st3 \<Rightarrow> Some (emit (Finished p) st3))
           else Some (emit (ErrorStatus (status_code resp)) st2))"
| "process_entries n net demojize headers repo_info [] st = Some st"
| "process_entries n net demojize headers repo_info (f # fs) st =
     (if is_markdown f then
        process_entries n net demojize headers repo_info fs
          (download_file net demojize (download_url f) repo_info
             (emit (Url (download_url f)) (emit (Downloading (entry_name f)) st)))
      else if entry_type f = ustr ''dir'' then
        (case process_directory n net demojize headers repo_info (entry_path f) st of
           None \<Rightarrow> None
         | Some st' \<Rightarrow> process_entries n net demojize headers repo_info fs st')
      else process_entries n net demojize headers repo_info fs st)"

text \<open>The loop of \<open>main\<close> over the configured repositories.\<close>

fun crawl_repos ::
  "nat \<Rightarrow> http \<Rightarrow> (pystr \<Rightarrow> pystr) \<Rightarrow> (pystr \<times> pystr) list \<Rightarrow> repo_info list \<Rightarrow>
   state \<Rightarrow> state option" where
  "crawl_repos n net demojize headers [] st = Some st"
| "crawl_repos n net demojize headers (r # rs) st =
     (case process_directory n net demojize headers r (path r) st of
        None \<Rightarrow> None
      | Some st' \<Rightarrow> crawl_repos n net demojize headers rs st')"

section \<open>The loader\<close>

text \<open>A JSON value as \<open>json.loads\<close> returns it; an object keeps its pairs in source order.\<close>

datatype json =
    JNull
  | JBool bool
  | JNumber pystr
  | JString pystr
  | JArray "json list"
  | JObject "(pystr \<times> json) list"

text \<open>
  \<open>obj.get(key, default)\<close> on the dictionary built from the pairs of an object: where
  a key is repeated, the last pair counts.
\<close>

definition dict_get :: "(pystr \<times> json) list \<Rightarrow> pystr \<Rightarrow> json \<Rightarrow> json" where
  "dict_get obj k d = (case map_of (rev obj) k of None \<Rightarrow> d | Some v \<Rightarrow> v)"

record document =
  page_content :: json
  metadata :: "(pystr \<times> json) list"

definition to_document :: "(pystr \<times> json) list \<Rightarrow> document" where
  "to_document obj =
     \<lparr>page_content = dict_get obj (ustr ''text'') (JString []),
      metadata =
        [(ustr ''title'', dict_get obj (ustr ''title'') (JString [])),
         (ustr ''repo_owner'', dict_get obj (ustr ''repo_owner'') (JString [])),
         (ustr ''repo_name'', dict_get obj (ustr ''repo_name'') (JString []))]\<rparr>"

text \<open>
  The loop of \<open>DocsJSONLLoader.load\<close> over the lines the reader yields. The reader's
  parse of one line belongs to the libraries (jsonlines on top of \<open>json.loads\<close>), so it
  is the parameter \<open>parse\<close>: \<open>None\<close> when the line is no JSON. The reader refuses a
  line that is not JSON or is \<open>null\<close>; \<open>obj.get\<close> exists on a dictionary only.
\<close>

datatype load_error = InvalidLineError | AttributeError

fun load_lines :: "(pystr \<Rightarrow> json option) \<Rightarrow> pystr list \<Rightarrow> load_error + document list" where
  "load_lines parse [] = Inr []"
| "load_lines parse (l # ls) =
     (case parse l of
        None \<Rightarrow> Inl InvalidLineError
      | Some JNull \<Rightarrow> Inl InvalidLineError
      | Some (JObject obj) \<Rightarrow>
          (case load_lines parse ls of
             Inl e \<Rightarrow> Inl e
           | Inr docs \<Rightarrow> Inr (to_document obj # docs))
      | Some _ \<Rightarrow> Inl AttributeError)"

text \<open>
  Reading a text file line by line: \<open>\r\n\<close> and \<open>\r\<close> are read as \<open>\n\<close>, and every
  line keeps its newline; the last line may lack one.
\<close>

fun universal_newlines :: "pystr \<Rightarrow> pystr" where
  "universal_newlines [] = []"
| "universal_newlines (c # cs) =
     (if c = 13 then
        (case cs of
           [] \<Rightarrow> [10]
         | d # ds \<Rightarrow> if d = 10 then 10 # universal_newlines ds else 10 # universal_newlines cs)
      else c # universal_newlines cs)"

fun split_lines :: "pystr \<Rightarrow> pystr \<Rightarrow> pystr list" where
  "split_lines acc [] = (if acc = [] then [] else [acc])"
| "split_lines acc (c # cs) =
     (if c = 10 then (acc @ [10]) # split_lines [] cs else split_lines (acc @ [c]) cs)"

definition file_lines :: "pystr \<Rightarrow> pystr list" where
  "file_lines content = split_lines [] (universal_newlines content)"

definition load :: "(pystr \<Rightarrow> json option) \<Rightarrow> pystr \<Rightarrow> load_error + document list" where
  "load parse content = load_lines parse (file_lines content)"

subsection \<open>Parsing what the sink writes\<close>

text \<open>
  \<open>json.loads\<close> on the JSON the sink can write: an object whose values are strings
  (the literals \<open>null\<close>, \<open>true\<close> and \<open>false\<close> are covered as well). Numbers, arrays and
  nested objects are left out of this parser, which answers \<open>None\<close> for them as it does
  for text that is no JSON.
\<close>

definition is_json_ws :: "pychar \<Rightarrow> bool" where
  "is_json_ws c \<longleftrightarrow> c = 32 \<or> c = 9 \<or> c = 10 \<or> c = 13"

definition skip_ws :: "pystr \<Rightarrow> pystr" where
  "skip_ws s = dropWhile is_json_ws s"

definition hex_value :: "pychar \<Rightarrow> nat option" where
  "hex_value c =
     (if 48 \<le> c \<and> c \<le> 57 then Some (c - 48)
      else if 97 \<le> c \<and> c \<le> 102 then Some (c - 87)
      else if 65 \<le> c \<and> c \<le> 70 then Some (c - 55)
      else None)"

definition decode_uXXXX :: "pystr \<Rightarrow> nat option" where
  "decode_uXXXX s =
     (case s of
        a # b # c # d # _ \<Rightarrow>
          (case (hex_value a, hex_value b, hex_value c, hex_value d) of
             (Some x, Some y, Some z, Some w) \<Rightarrow> Some (4096 * x + 256 * y + 16 * z + w)
           | _ \<Rightarrow> None)
      | _ \<Rightarrow> None)"

definition unescape :: "pychar \<Rightarrow> pychar option" where
  "unescape e =
     (if e = 34 then Some 34
      else if e = 92 then Some 92
      else if e = 47 then Some 47
      else if e = 98 then Some 8
      else if e = 102 then Some 12
      else if e = 110 then Some 10
      else if e = 114 then Some 13
      else if e = 116 then Some 9
      else None)"

definition cons_char :: "pychar \<Rightarrow> (pystr \<times> pystr) option \<Rightarrow> (pystr \<times> pystr) option" where
  "cons_char c res = (case res of None \<Rightarrow> None | Some (s, rest) \<Rightarrow> Some (c # s, rest))"

text \<open>
  \<open>scanstring\<close> reads a string literal behind its opening quote and returns the string
  and what follows the closing quote.
\<close>

fun scanstring :: "pystr \<Rightarrow> (pystr \<times> pystr) option" where
  "scanstring [] = None"
| "scanstring (c # cs) =
     (if c = 34 then Some ([], cs)
      else if c = 92 then
        (case cs of
           [] \<Rightarrow> None
         | e # es \<Rightarrow>
             if e = 117 then
               (case decode_uXXXX es of
                  None \<Rightarrow> None
                | Some uni \<Rightarrow>
                    if 55296 \<le> uni \<and> uni \<le> 56319 \<and> take 2 (drop 4 es) = [92, 117] then
                      (case decode_uXXXX (drop 6 es) of
                         None \<Rightarrow> None
                       | Some uni2 \<Rightarrow>
                           if 56320 \<le> uni2 \<and> uni2 \<le> 57343 then
                             cons_char (65536 + ((uni - 55296) * 1024 + (uni2 - 56320)))
                               (scanstring (drop 10 es))
                           else cons_char uni (scanstring (drop 4 es)))
                    else cons_char uni (scanstring (drop 4 es)))
             else
               (case unescape e of
                  None \<Rightarrow> None
                | Some ch \<Rightarrow> cons_char ch (scanstring es)))
      else if c < 32 then None
      else cons_char c (scanstring cs))"

definition parse_value :: "pystr \<Rightarrow> (json \<times> pystr) option" where
  "parse_value s =
     (case s of
        [] \<Rightarrow> None
      | c # cs \<Rightarrow>
          if c = 34 then
            (case scanstring cs of None \<Rightarrow> None | Some (v, rest) \<Rightarrow> Some (JString v, rest))
          else if take 4 s = ustr ''null'' then Some (JNull, drop 4 s)
          else if take 4 s = ustr ''true'' then Some (JBool True, drop 4 s)
          else if take 5 s = ustr ''false'' then Some (JBool False, drop 5 s)
          else None)"

text \<open>
  The pairs of an object, from behind the opening quote of a key up to the closing
  brace. The first argument bounds the number of pairs and is given the length of the
  text.
\<close>

fun parse_members :: "nat \<Rightarrow> pystr \<Rightarrow> ((pystr \<times> json) list \<times> pystr) option" where
  "parse_members 0 s = None"
| "parse_members (Suc n) s =
     (case scanstring s of
        None \<Rightarrow> None
      | Some (key, r1) \<Rightarrow>
          (case skip_ws r1 of
             [] \<Rightarrow> None
           | c # r2 \<Rightarrow>
               if c \<noteq> 58 then None
               else
                 (case parse_value (skip_ws r2) of
                    None \<Rightarrow> None
                  | Some (v, r3) \<Rightarrow>
                      (case skip_ws r3 of
                         [] \<Rightarrow> None
                       | d # r4 \<Rightarrow>
                           if d = 125 then Some ([(key, v)], r4)
                           else if d = 44 then
                             (case skip_ws r4 of
                                [] \<Rightarrow> None
                              | q # r5 \<Rightarrow>
                                  if q = 34 then
                                    (case parse_members n r5 of
                                       None \<Rightarrow> None
                                     | Some (kvs, r6) \<Rightarrow> Some ((key, v) # kvs, r6))
                                  else None)
                           else None))))"

definition parse_object :: "pystr \<Rightarrow> (json \<times> pystr) option" where
  "parse_object s =
     (case skip_ws s of
        [] \<Rightarrow> None
      | c # cs \<Rightarrow>
          if c = 125 then Some (JObject [], cs)
          else if c = 34 then
            (case parse_members (length cs) cs of
               None \<Rightarrow> None
             | Some (kvs, rest) \<Rightarrow> Some (JObject kvs, rest))
          else None)"

definition json_loads :: "pystr \<Rightarrow> json option" where
  "json_loads s =
     (case (case skip_ws s of
              [] \<Rightarrow> None
            | c # cs \<Rightarrow> if c = 123 then parse_object cs else parse_value (c # cs)) of
        None \<Rightarrow> None
      | Some (v, rest) \<Rightarrow> if skip_ws rest = [] then Some v else None)"

text \<open>The reader drops one leading record separator or byte order mark before it parses.\<close>

definition reader_loads :: "pystr \<Rightarrow> json option" where
  "reader_loads l =
     (case l of
        [] \<Rightarrow> json_loads []
      | c # cs \<Rightarrow> if c = 30 \<or> c = 65279 then json_loads cs else json_loads l)"

text \<open>A record as the loader is expected to return it.\<close>

definition record_document :: "pystr \<Rightarrow> repo_info \<Rightarrow> pystr \<Rightarrow> document" where
  "record_document filename repo_info txt =
     \<lparr>page_content = JString txt,
      metadata =
        [(ustr ''title'', JString filename),
         (ustr ''repo_owner'', JString (owner repo_info)),
         (ustr ''repo_name'', JString (repo repo_info))]\<rparr>"

text \<open>A code point that a decoded text can hold: in range and no surrogate.\<close>

definition scalar :: "pychar \<Rightarrow> bool" where
  "scalar c \<longleftrightarrow> (c < 55296 \<or> 57343 < c) \<and> c \<le> 1114111"

text \<open>The pairs of a dictionary of strings as JSON values, and what a run of the sink leaves in the file.\<close>

definition as_json :: "(pystr \<times> pystr) list \<Rightarrow> (pystr \<times> json) list" where
  "as_json d = map (\<lambda>(k, v). (k, JString v)) d"

definition valid_dict :: "(pystr \<times> pystr) list \<Rightarrow> bool" where
  "valid_dict d \<longleftrightarrow> list_all (\<lambda>(k, v). list_all scalar k \<and> list_all scalar v) d"

definition write_records :: "(pystr \<times> repo_info \<times> pystr) list \<Rightarrow> pystr \<Rightarrow> pystr" where
  "write_records recs content =
     foldl (\<lambda>c (f, r, t). sink_append (file_dict f r t) c) content recs"

definition valid_record :: "pystr \<times> repo_info \<times> pystr \<Rightarrow> bool" where
  "valid_record = (\<lambda>(f, r, t).
     list_all scalar f \<and> list_all scalar (owner r) \<and> list_all scalar (repo r) \<and> list_all scalar t)"

section \<open>Sample data\<close>

definition acme_docs :: repo_info where
  "acme_docs = \<lparr>owner = ustr ''acme'', repo = ustr ''docs'', path = ustr ''guide''\<rparr>"

definition fresh :: state where
  "fresh = \<lparr>requests = [], jsonl_file = [], console = []\<rparr>"

definition not_found :: response where
  "not_found = \<lparr>status_code = 404, response_text = PyStr (ustr ''Not Found''), response_json = []\<rparr>"

definition server_error :: response where
  "server_error = \<lparr>status_code = 500, response_text = PyStr [], response_json = []\<rparr>"

definition token_headers :: "(pystr \<times> pystr) list" where
  "token_headers =
     [(ustr ''Authorization'', ustr ''Bearer t''),
      (ustr ''Accept'', ustr ''application/vnd.github.v3.raw'')]"

text \<open>The body of the scenario: a paragraph with a link and a party popper, then a copyright line.\<close>

definition scenario_body :: pystr where
  "scenario_body =
     ustr ''<p>Hello http://x.com '' @ [127881] @ ustr ''</p>'' @ [10] @
     ustr ''Copyright 2024 Acme''"

definition intro_entry :: dir_entry where
  "intro_entry =
     \<lparr>entry_name = ustr ''intro.md'', entry_path = ustr ''guide/intro.md'',
      entry_type = ustr ''file'', download_url = ustr ''https://raw.test/guide/intro.md''\<rparr>"

definition upper_entry :: dir_entry where
  "upper_entry =
     \<lparr>entry_name = ustr ''readme.MD'', entry_path = ustr ''guide/readme.MD'',
      entry_type = ustr ''file'', download_url = ustr ''https://raw.test/guide/readme.MD''\<rparr>"

definition notes_entry :: dir_entry where
  "notes_entry =
     \<lparr>entry_name = ustr ''notes.txt'', entry_path = ustr ''guide/notes.txt'',
      entry_type = ustr ''file'', download_url = ustr ''https://raw.test/guide/notes.txt''\<rparr>"

definition link_entry :: dir_entry where
  "link_entry =
     \<lparr>entry_name = ustr ''latest.md'', entry_path = ustr ''guide/latest.md'',
      entry_type = ustr ''symlink'', download_url = ustr ''https://raw.test/guide/latest.md''\<rparr>"

definition broken_entry :: dir_entry where
  "broken_entry =
     \<lparr>entry_name = ustr ''broken'', entry_path = ustr ''guide/broken'',
      entry_type = ustr ''dir'', download_url = []\<rparr>"

definition locale_entry :: dir_entry where
  "locale_entry =
     \<lparr>entry_name = ustr ''zh-CN'', entry_path = ustr ''zh-CN'',
      entry_type = ustr ''dir'', download_url = []\<rparr>"

text \<open>
  A small network: the listing of \<open>guide\<close> holds a directory whose own listing fails
  and the file \<open>intro.md\<close>; the listing of \<open>zh-CN\<close> holds \<open>intro.md\<close>; the file has
  the body of the scenario.
\<close>

definition sample_net :: http where
  "sample_net rq =
     (if rq = Get (base_url acme_docs @ ustr ''guide'') token_headers then
        \<lparr>status_code = 200, response_text = PyStr [], response_json = [broken_entry, intro_entry]\<rparr>
      else if rq = Get (base_url acme_docs @ ustr ''zh-CN'') token_headers then
        \<lparr>status_code = 200, response_text = PyStr [], response_json = [intro_entry]\<rparr>
      else if rq = Get (ustr ''https://raw.test/guide/intro.md'') [] then
        \<lparr>status_code = 200, response_text = PyStr scenario_body, response_json = []\<rparr>
      else if rq = Get (base_url acme_docs @ ustr ''guide/broken'') token_headers then server_error
      else not_found)"

definition intro_line :: pystr where
  "intro_line =
     ustr ''{\"title\": \"intro.md\", \"repo_owner\": \"acme\", \"repo_name\": \"docs\", \"text\": \"Hello\"}'' @ [10]"

section \<open>Expected outcomes of one listing\<close>

text \<open>What the loop does for one Markdown entry, and the line this adds to the file.\<close>

definition fetch_entry ::
  "http \<Rightarrow> (pystr \<Rightarrow> pystr) \<Rightarrow> repo_info \<Rightarrow> dir_entry \<Rightarrow> state \<Rightarrow> state" where
  "fetch_entry net demojize r f st =
     download_file net demojize (download_url f) r
       (emit (Url (download_url f)) (emit (Downloading (entry_name f)) st))"

definition record_line ::
  "http \<Rightarrow> (pystr \<Rightarrow> pystr) \<Rightarrow> repo_info \<Rightarrow> dir_entry \<Rightarrow> pystr" where
  "record_line net demojize r f =
     (case response_text (net (Get (download_url f) [])) of
        PyStr body \<Rightarrow>
          json_dumps (file_dict (last (split 47 (download_url f))) r
                        (normalize_and_collapse demojize body)) @ [10]
      | _ \<Rightarrow> [])"

text \<open>
  The two kinds of request a crawl may issue: a listing request for some path of the
  repository, and the download of a Markdown entry that a listing with status 200 held.
\<close>

definition listing_request :: "repo_info \<Rightarrow> (pystr \<times> pystr) list \<Rightarrow> request \<Rightarrow> bool" where
  "listing_request r headers rq \<longleftrightarrow> (\<exists>p. rq = Get (base_url r @ p) headers)"

definition listed_download ::
  "http \<Rightarrow> repo_info \<Rightarrow> (pystr \<times> pystr) list \<Rightarrow> request \<Rightarrow> bool" where
  "listed_download net r headers rq \<longleftrightarrow>
     (\<exists>p f. status_code (net (Get (base_url r @ p) headers)) = 200 \<and>
            f \<in> set (response_json (net (Get (base_url r @ p) headers))) \<and>
            is_markdown f \<and> rq = Get (download_url f) [])"

section \<open>Facts about the helpers\<close>

lemmas ev = ustr_def ord_def re_match_def tag_re_def url_re_def copyright_re_def token_re_def
  ws_re_def is_space_def dot_def non_space_def name_char_def replace_newlines_def strip_def
  collapse_whitespace_def normalize_and_collapse_def preprocess_text_def

lemmas ev_json = json_dumps_def file_dict_def dumps_str_def escape_char_def

lemmas ev_crawl = emit_def issue_def download_file_def sink_append_def base_url_def is_markdown_def
  endswith_def basename_def

lemma split_no_sep: "sep \<notin> set w \<Longrightarrow> split sep w = [w]"
  by (induction w) auto

lemma split_append_sep:
  "sep \<notin> set w \<Longrightarrow> \<exists>p ps. split sep (u @ sep # w) = p # ps \<and> ps \<noteq> [] \<and> last ps = w"
  by (induction u) (auto simp: split_no_sep)

lemma last_split_append:
  "sep \<notin> set w \<Longrightarrow> last (split sep (u @ sep # w)) = w"
  using split_append_sep [of sep w u] by auto

lemma hex_digit_not_newline: "hex_digit d \<noteq> 10"
  by (simp add: hex_digit_def)

lemma hex4_no_newline: "10 \<notin> set (hex4 n)"
  by (simp add: hex4_def hex_digit_not_newline)

lemma escape_char_no_newline: "10 \<notin> set (escape_char c)"
  by (simp add: escape_char_def hex4_no_newline)

lemma dumps_str_no_newline: "10 \<notin> set (dumps_str s)"
  by (auto simp: dumps_str_def escape_char_no_newline)

lemma dumps_items_no_newline: "10 \<notin> set (dumps_items d)"
  by (induction d rule: dumps_items.induct) (auto simp: dumps_str_no_newline)

lemma json_dumps_no_newline: "10 \<notin> set (json_dumps d)"
  by (simp add: json_dumps_def dumps_items_no_newline)

section \<open>The skip rule\<close>

text \<open>
  C4. When the final segment of the path is \<open>zh\<close>, \<open>process_directory\<close> returns at
  once, whatever the network would answer: it prints the skip message, issues no
  request and leaves the JSONL file as it was. The loop over a listing that meets a
  directory entry with such a path goes on with the next entry from that state.
\<close>

theorem zh_directory_skipped:
  assumes "basename p = ustr ''zh''"
  shows "process_directory (Suc n) net demojize headers r p st = Some (emit Skipping st)
         \<and> requests (emit Skipping st) = requests st
         \<and> jsonl_file (emit Skipping st) = jsonl_file st
         \<and> (entry_type d = ustr ''dir'' \<and> entry_path d = p \<longrightarrow>
              process_entries (Suc n) net demojize headers r (d # fs) st =
                process_entries (Suc n) net demojize headers r fs (emit Skipping st))"
proof -
  have "\<not> is_markdown d" if "entry_type d = ustr ''dir''"
    using that by (simp add: is_markdown_def ustr_def ord_def)
  then show ?thesis
    using assms by (auto simp: emit_def)
qed

theorem zh_directory_skipped_witness:
  "basename (ustr ''docs/zh'') = ustr ''zh'' \<and>
   process_directory (Suc 0) (\<lambda>rq. not_found) id [] acme_docs (ustr ''docs/zh'') fresh =
     Some \<lparr>requests = [], jsonl_file = [], console = [Skipping]\<rparr>"
proof -
  have h: "basename (ustr ''docs/zh'') = ustr ''zh''"
    by (simp add: basename_def ustr_def ord_def)
  show ?thesis
    using h zh_directory_skipped [OF h, where n = 0 and net = "\<lambda>rq. not_found" and demojize = id
        and headers = "[]" and r = acme_docs and st = fresh]
    by (simp add: emit_def fresh_def)
qed

section \<open>The fetcher\<close>

text \<open>
  C9. Whenever \<open>response.text\<close> is a string, \<open>download_file\<close> appends exactly one
  line to the JSONL file, the record of the normalised body, and prints no error. The
  status code plays no part, and the body may be empty.
\<close>

theorem download_file_writes_one_record:
  assumes "response_text (net (Get url [])) = PyStr body"
  shows "jsonl_file (download_file net demojize url r st) =
           jsonl_file st @
           json_dumps (file_dict (last (split 47 url)) r (normalize_and_collapse demojize body)) @ [10]
         \<and> count_list (jsonl_file (download_file net demojize url r st)) 10 =
             Suc (count_list (jsonl_file st) 10)
         \<and> console (download_file net demojize url r st) = console st"
  using assms json_dumps_no_newline
  by (simp add: download_file_def sink_append_def issue_def Let_def count_list_0_iff)

theorem download_file_writes_one_record_witness:
  "response_text (not_found) = PyStr (ustr ''Not Found'') \<and>
   jsonl_file (download_file (\<lambda>rq. not_found) id (ustr ''h/a.md'') acme_docs fresh) =
     ustr ''{\"title\": \"a.md\", \"repo_owner\": \"acme\", \"repo_name\": \"docs\", \"text\": \"Not Found\"}'' @ [10]"
proof -
  have h: "response_text ((\<lambda>rq. not_found) (Get (ustr ''h/a.md'') [])) = PyStr (ustr ''Not Found'')"
    by (simp add: not_found_def)
  have n: "normalize_and_collapse id (ustr ''Not Found'') = ustr ''Not Found''"
    by (simp add: ev)
  have l: "last (split 47 (ustr ''h/a.md'')) = ustr ''a.md''"
    by (simp add: ustr_def ord_def)
  have d: "json_dumps (file_dict (ustr ''a.md'') acme_docs (ustr ''Not Found'')) =
      ustr ''{\"title\": \"a.md\", \"repo_owner\": \"acme\", \"repo_name\": \"docs\", \"text\": \"Not Found\"}''"
    by (simp add: acme_docs_def ev_json ustr_def ord_def)
  have "jsonl_file (download_file (\<lambda>rq. not_found) id (ustr ''h/a.md'') acme_docs fresh) =
      jsonl_file fresh @
      json_dumps (file_dict (last (split 47 (ustr ''h/a.md''))) acme_docs
        (normalize_and_collapse id (ustr ''Not Found''))) @ [10]"
    using h download_file_writes_one_record [where net = "\<lambda>rq. not_found" and url = "ustr ''h/a.md''"
        and body = "ustr ''Not Found''" and demojize = id and r = acme_docs and st = fresh]
    by blast
  then show ?thesis
    unfolding n l d by (simp add: fresh_def not_found_def)
qed

section \<open>Facts about the sample data\<close>

lemma scenario_normalised:
  assumes "demojize (ustr ''Hello  '' @ [127881] @ ustr '' '') = ustr ''Hello  :party_popper: ''"
  shows "normalize_and_collapse demojize scenario_body = ustr ''Hello''"
proof -
  have s4: "replace_newlines (re_sub copyright_re [] (re_sub url_re [] (re_sub tag_re [] scenario_body)))
            = ustr ''Hello  '' @ [127881] @ ustr '' ''"
    by (simp add: ev scenario_body_def)
  have s6: "strip (collapse_whitespace (re_sub token_re [] (ustr ''Hello  :party_popper: ''))) = ustr ''Hello''"
    by (simp add: ev)
  show ?thesis
    unfolding normalize_and_collapse_def preprocess_text_def Let_def s4 assms by (rule s6)
qed

lemma sample_demojize:
  "demojize_with emoji_data (ustr ''Hello  '' @ [127881] @ ustr '' '') = ustr ''Hello  :party_popper: ''"
  by (simp add: ustr_def ord_def emoji_data_def emoji_at_def)

lemma sample_normalised:
  "normalize_and_collapse (demojize_with emoji_data) scenario_body = ustr ''Hello''"
  using scenario_normalised [where demojize = "demojize_with emoji_data"] sample_demojize by simp

lemma intro_line_eq:
  "json_dumps (file_dict (ustr ''intro.md'') acme_docs (ustr ''Hello'')) @ [10] = intro_line"
  by (simp add: ev_json acme_docs_def intro_line_def ustr_def ord_def)

lemma sample_net_intro:
  "sample_net (Get (download_url intro_entry) []) =
     \<lparr>status_code = 200, response_text = PyStr scenario_body, response_json = []\<rparr>"
  by (simp add: sample_net_def intro_entry_def ustr_def ord_def)

lemma sample_net_broken:
  "sample_net (Get (base_url acme_docs @ entry_path broken_entry) token_headers) = server_error"
  by (simp add: sample_net_def broken_entry_def base_url_def acme_docs_def token_headers_def ustr_def ord_def)

lemma sample_net_locale:
  "sample_net (Get (base_url acme_docs @ ustr ''zh-CN'') token_headers) =
     \<lparr>status_code = 200, response_text = PyStr [], response_json = [intro_entry]\<rparr>"
  by (simp add: sample_net_def base_url_def acme_docs_def token_headers_def ustr_def ord_def)

lemma intro_name: "last (split 47 (download_url intro_entry)) = ustr ''intro.md''"
  by (simp add: intro_entry_def ustr_def ord_def)

lemma sample_fetch_intro:
  "fetch_entry sample_net (demojize_with emoji_data) acme_docs intro_entry st =
     st\<lparr>requests := requests st @ [Get (download_url intro_entry) []],
        jsonl_file := jsonl_file st @ intro_line,
        console := console st @ [Downloading (entry_name intro_entry), Url (download_url intro_entry)]\<rparr>"
  by (simp add: fetch_entry_def download_file_def sink_append_def Let_def sample_net_intro intro_name
      sample_normalised intro_line_eq [symmetric] emit_def issue_def)

lemma is_markdown_samples:
  "is_markdown intro_entry" "\<not> is_markdown upper_entry" "\<not> is_markdown notes_entry"
  "\<not> is_markdown link_entry" "\<not> is_markdown broken_entry" "\<not> is_markdown locale_entry"
  by (simp_all add: is_markdown_def endswith_def intro_entry_def upper_entry_def notes_entry_def
      link_entry_def broken_entry_def locale_entry_def ustr_def ord_def suffix_def)

section \<open>The scenario\<close>

text \<open>
  C1. The body \<open><p>Hello http://x.com (party popper)</p>\<close>, a newline, \<open>Copyright 2024 Acme\<close>
  is normalised to \<open>Hello\<close>, given that demojize turns the party popper into
  \<open>:party_popper:\<close>; fetched from a URL that ends in \<open>/intro.md\<close> for the repository
  \<open>acme/docs\<close>, it adds to the file the line of the record with title \<open>intro.md\<close>,
  owner \<open>acme\<close>, name \<open>docs\<close> and text \<open>Hello\<close>.
\<close>

theorem scenario_record:
  assumes dm: "demojize (ustr ''Hello  '' @ [127881] @ ustr '' '') = ustr ''Hello  :party_popper: ''"
    and body: "response_text (net (Get (u @ ustr ''/intro.md'') [])) = PyStr scenario_body"
  shows "normalize_and_collapse demojize scenario_body = ustr ''Hello'' \<and>
         jsonl_file (download_file net demojize (u @ ustr ''/intro.md'') acme_docs st) =
           jsonl_file st @ intro_line"
proof -
  have name: "last (split 47 (u @ ustr ''/intro.md'')) = ustr ''intro.md''"
    using last_split_append [of 47 "ustr ''intro.md''" u] by (simp add: ustr_def ord_def)
  have norm: "normalize_and_collapse demojize scenario_body = ustr ''Hello''"
    using dm by (rule scenario_normalised)
  show ?thesis
    using body
    by (simp add: norm name intro_line_eq [symmetric] download_file_def sink_append_def issue_def Let_def)
qed

theorem scenario_record_witness:
  "demojize_with emoji_data (ustr ''Hello  '' @ [127881] @ ustr '' '') = ustr ''Hello  :party_popper: ''
   \<and> response_text (sample_net (Get (ustr ''https://raw.test/guide'' @ ustr ''/intro.md'') [])) = PyStr scenario_body
   \<and> normalize_and_collapse (demojize_with emoji_data) scenario_body = ustr ''Hello''
   \<and> jsonl_file (download_file sample_net (demojize_with emoji_data)
         (ustr ''https://raw.test/guide'' @ ustr ''/intro.md'') acme_docs fresh) = intro_line"
proof -
  have body: "response_text (sample_net (Get (ustr ''https://raw.test/guide'' @ ustr ''/intro.md'') [])) = PyStr scenario_body"
    by (simp add: sample_net_def ustr_def ord_def)
  show ?thesis
    using sample_demojize body
      scenario_record [where demojize = "demojize_with emoji_data" and net = sample_net
        and u = "ustr ''https://raw.test/guide''" and st = fresh]
    by (simp add: fresh_def)
qed

section \<open>The loop over a listing\<close>

lemma fetch_entry_requests:
  "requests (fetch_entry net demojize r f st) = requests st @ [Get (download_url f) []]"
  by (simp add: fetch_entry_def download_file_def sink_append_def Let_def emit_def issue_def split: pyobj.splits)

lemma fetch_entry_file:
  "jsonl_file (fetch_entry net demojize r f st) = jsonl_file st @ record_line net demojize r f"
  by (simp add: fetch_entry_def download_file_def sink_append_def record_line_def Let_def emit_def issue_def
      split: pyobj.splits)

lemma foldl_fetch_requests:
  "requests (foldl (\<lambda>s f. fetch_entry net demojize r f s) st fs) =
     requests st @ map (\<lambda>f. Get (download_url f) []) fs"
  by (induction fs arbitrary: st) (simp_all add: fetch_entry_requests)

lemma foldl_fetch_file:
  "jsonl_file (foldl (\<lambda>s f. fetch_entry net demojize r f s) st fs) =
     jsonl_file st @ concat (map (record_line net demojize r) fs)"
  by (induction fs arbitrary: st) (simp_all add: fetch_entry_file)

lemma markdown_is_no_dir: "is_markdown f \<Longrightarrow> entry_type f \<noteq> ustr ''dir''"
  by (auto simp: is_markdown_def ustr_def ord_def)

lemma process_entries_flat:
  assumes "\<forall>f \<in> set fs. entry_type f \<noteq> ustr ''dir''"
  shows "process_entries n net demojize headers r fs st =
           Some (foldl (\<lambda>s f. fetch_entry net demojize r f s) st (filter is_markdown fs))"
  using assms by (induction fs arbitrary: st) (simp_all add: fetch_entry_def)

section \<open>Requests of a whole crawl\<close>

lemma download_file_requests:
  "requests (download_file net demojize url r st) = requests st @ [Get url []]"
  by (simp add: download_file_def Let_def issue_def emit_def split: pyobj.splits)

lemma crawl_requests:
  shows "process_directory n net demojize headers r p st = Some st' \<Longrightarrow>
         \<exists>new. requests st' = requests st @ new \<and>
           (\<forall>rq \<in> set new. listing_request r headers rq \<or> listed_download net r headers rq)"
    and "process_entries n net demojize headers r fs st = Some st' \<Longrightarrow>
         \<exists>new. requests st' = requests st @ new \<and>
           (\<forall>rq \<in> set new. listing_request r headers rq \<or> listed_download net r headers rq \<or>
              (\<exists>f \<in> set fs. is_markdown f \<and> rq = Get (download_url f) []))"
proof (induction n net demojize headers r p st and n net demojize headers r fs st
       arbitrary: st' and st' rule: process_directory_process_entries.induct)
  case (1 net demojize headers repo_info p st)
  then show ?case by simp
next
  case (2 n net demojize headers repo_info p st)
  show ?case
  proof (cases "basename p = ustr ''zh''")
    case True
    with "2.prems" show ?thesis by (auto simp: emit_def)
  next
    case False
    let ?rq = "Get (base_url repo_info @ p) headers"
    let ?st2 = "issue ?rq (emit (Processing p (repo repo_info)) st)"
    have first: "requests ?st2 = requests st @ [?rq]"
      by (simp add: issue_def emit_def)
    have lr: "listing_request repo_info headers ?rq"
      by (auto simp: listing_request_def)
    show ?thesis
    proof (cases "status_code (net ?rq) = 200")
      case True
      from "2.prems" False True obtain st3 where
        st3: "process_entries n net demojize headers repo_info (response_json (net ?rq)) ?st2 = Some st3"
        and st': "st' = emit (Finished p) st3"
        by (auto simp: Let_def split: option.splits)
      from "2.IH" [OF False refl refl refl refl True st3] obtain new where
        new: "requests st3 = requests ?st2 @ new"
        and ok: "\<forall>rq \<in> set new. listing_request repo_info headers rq \<or>
                   listed_download net repo_info headers rq \<or>
                   (\<exists>f \<in> set (response_json (net ?rq)). is_markdown f \<and> rq = Get (download_url f) [])"
        by blast
      have "listing_request repo_info headers rq \<or> listed_download net repo_info headers rq"
        if "rq \<in> set new" for rq
        using ok that True unfolding listed_download_def by blast
      then have "\<forall>rq \<in> set (?rq # new).
          listing_request repo_info headers rq \<or> listed_download net repo_info headers rq"
        using lr by auto
      moreover have "requests st' = requests st @ (?rq # new)"
        using new first st' by (simp add: emit_def)
      ultimately show ?thesis by blast
    next
      case no: False
      with "2.prems" False have "st' = emit (ErrorStatus (status_code (net ?rq))) ?st2"
        by (simp add: Let_def)
      then have "requests st' = requests st @ [?rq]"
        using first by (simp add: emit_def)
      then show ?thesis using lr by auto
    qed
  qed
next
  case (3 n net demojize headers repo_info st)
  then show ?case by simp
next
  case (4 n net demojize headers repo_info f fs st)
  show ?case
  proof (cases "is_markdown f")
    case True
    let ?st1 = "download_file net demojize (download_url f) repo_info
             (emit (Url (download_url f)) (emit (Downloading (entry_name f)) st))"
    have first: "requests ?st1 = requests st @ [Get (download_url f) []]"
      by (simp add: download_file_requests emit_def)
    from "4.prems" True have "process_entries n net demojize headers repo_info fs ?st1 = Some st'"
      by simp
    from "4.IH"(1) [OF True this] obtain new where
      new: "requests st' = requests ?st1 @ new"
      and ok: "\<forall>rq \<in> set new. listing_request repo_info headers rq \<or>
                 listed_download net repo_info headers rq \<or>
                 (\<exists>g \<in> set fs. is_markdown g \<and> rq = Get (download_url g) [])"
      by blast
    have "requests st' = requests st @ (Get (download_url f) [] # new)"
      using new first by simp
    moreover have "\<forall>rq \<in> set (Get (download_url f) [] # new).
        listing_request repo_info headers rq \<or> listed_download net repo_info headers rq \<or>
        (\<exists>g \<in> set (f # fs). is_markdown g \<and> rq = Get (download_url g) [])"
      using ok True by auto
    ultimately show ?thesis by blast
  next
    case False
    show ?thesis
    proof (cases "entry_type f = ustr ''dir''")
      case True
      from "4.prems" False True obtain st1 where
        st1: "process_directory n net demojize headers repo_info (entry_path f) st = Some st1"
        and rest: "process_entries n net demojize headers repo_info fs st1 = Some st'"
        by (auto split: option.splits)
      from "4.IH"(2) [OF False True st1] obtain new1 where
        new1: "requests st1 = requests st @ new1"
        and ok1: "\<forall>rq \<in> set new1. listing_request repo_info headers rq \<or>
                 listed_download net repo_info headers rq"
        by blast
      from "4.IH"(3) [OF False True st1 rest] obtain new2 where
        new2: "requests st' = requests st1 @ new2"
        and ok2: "\<forall>rq \<in> set new2. listing_request repo_info headers rq \<or>
                 listed_download net repo_info headers rq \<or>
                 (\<exists>g \<in> set fs. is_markdown g \<and> rq = Get (download_url g) [])"
        by blast
      have "requests st' = requests st @ (new1 @ new2)"
        using new1 new2 by simp
      moreover have "\<forall>rq \<in> set (new1 @ new2).
          listing_request repo_info headers rq \<or> listed_download net repo_info headers rq \<or>
          (\<exists>g \<in> set (f # fs). is_markdown g \<and> rq = Get (download_url g) [])"
        using ok1 ok2 by auto
      ultimately show ?thesis by blast
    next
      case other: False
      from "4.prems" False other have "process_entries n net demojize headers repo_info fs st = Some st'"
        by simp
      from "4.IH"(4) [OF False other this] obtain new where
        new: "requests st' = requests st @ new"
        and ok: "\<forall>rq \<in> set new. listing_request repo_info headers rq \<or>
                 listed_download net repo_info headers rq \<or>
                 (\<exists>g \<in> set fs. is_markdown g \<and> rq = Get (download_url g) [])"
        by blast
      have "\<forall>rq \<in> set new. listing_request repo_info headers rq \<or>
          listed_download net repo_info headers rq \<or>
          (\<exists>g \<in> set (f # fs). is_markdown g \<and> rq = Get (download_url g) [])"
        using ok by auto
      then show ?thesis using new by blast
    qed
  qed
qed

text \<open>
  C5. In a listing without directories, the files whose names end in \<open>.md\<close> or
  \<open>.mdx\<close> are fetched, in the order of the listing, and nothing else is: the requests
  issued are the downloads of exactly these entries, and the file grows by exactly
  their records. A directory entry is handed to \<open>process_directory\<close> before the loop
  goes on. In a crawl of any depth, every request issued is a listing request or the
  download of a Markdown entry of a listing that answered 200.
\<close>

theorem only_markdown_files_fetched:
  "((\<forall>f \<in> set fs. entry_type f \<noteq> ustr ''dir'') \<longrightarrow>
      (\<exists>st'. process_entries n net demojize headers r fs st = Some st' \<and>
         requests st' = requests st @ map (\<lambda>f. Get (download_url f) []) (filter is_markdown fs) \<and>
         jsonl_file st' =
           jsonl_file st @ concat (map (record_line net demojize r) (filter is_markdown fs))))
   \<and> (entry_type d = ustr ''dir'' \<longrightarrow>
         process_entries n net demojize headers r (d # fs) st =
           (case process_directory n net demojize headers r (entry_path d) st of
              None \<Rightarrow> None
            | Some st' \<Rightarrow> process_entries n net demojize headers r fs st'))
   \<and> (process_directory n net demojize headers r p st = Some st2 \<longrightarrow>
         (\<exists>new. requests st2 = requests st @ new \<and>
            (\<forall>rq \<in> set new. listing_request r headers rq \<or> listed_download net r headers rq)))"
proof -
  have "\<exists>st'. process_entries n net demojize headers r fs st = Some st' \<and>
         requests st' = requests st @ map (\<lambda>f. Get (download_url f) []) (filter is_markdown fs) \<and>
         jsonl_file st' =
           jsonl_file st @ concat (map (record_line net demojize r) (filter is_markdown fs))"
    if "\<forall>f \<in> set fs. entry_type f \<noteq> ustr ''dir''"
    using process_entries_flat [OF that] by (simp add: foldl_fetch_requests foldl_fetch_file)
  moreover have "process_entries n net demojize headers r (d # fs) st =
           (case process_directory n net demojize headers r (entry_path d) st of
              None \<Rightarrow> None
            | Some st' \<Rightarrow> process_entries n net demojize headers r fs st')"
    if "entry_type d = ustr ''dir''"
    using that markdown_is_no_dir [of d] by auto
  ultimately show ?thesis
    using crawl_requests(1) [of n net demojize headers r p st st2] by blast
qed

theorem only_markdown_files_fetched_witness:
  "entry_type upper_entry \<noteq> ustr ''dir'' \<and> entry_type notes_entry \<noteq> ustr ''dir'' \<and>
   entry_type link_entry \<noteq> ustr ''dir'' \<and> entry_type intro_entry \<noteq> ustr ''dir'' \<and>
   filter is_markdown [upper_entry, notes_entry, link_entry, intro_entry] = [intro_entry] \<and>
   (\<exists>st'. process_entries 0 sample_net (demojize_with emoji_data) token_headers acme_docs
            [upper_entry, notes_entry, link_entry, intro_entry] fresh = Some st' \<and>
          requests st' = [Get (download_url intro_entry) []] \<and>
          jsonl_file st' = intro_line)"
proof -
  let ?fs = "[upper_entry, notes_entry, link_entry, intro_entry]"
  have flat: "\<forall>f \<in> set ?fs. entry_type f \<noteq> ustr ''dir''"
    by (simp add: upper_entry_def notes_entry_def link_entry_def intro_entry_def ustr_def ord_def)
  have md: "filter is_markdown ?fs = [intro_entry]"
    by (simp add: is_markdown_samples)
  have line: "record_line sample_net (demojize_with emoji_data) acme_docs intro_entry = intro_line"
    by (simp add: record_line_def sample_net_intro intro_name sample_normalised intro_line_eq)
  have "\<exists>st'. process_entries 0 sample_net (demojize_with emoji_data) token_headers acme_docs ?fs fresh =
          Some st' \<and>
        requests st' = requests fresh @ map (\<lambda>f. Get (download_url f) []) (filter is_markdown ?fs) \<and>
        jsonl_file st' =
          jsonl_file fresh @
          concat (map (record_line sample_net (demojize_with emoji_data) acme_docs) (filter is_markdown ?fs))"
    using flat
      only_markdown_files_fetched [where fs = ?fs and n = 0 and net = sample_net
        and demojize = "demojize_with emoji_data" and headers = token_headers and r = acme_docs
        and st = fresh]
    by blast
  then show ?thesis
    using flat unfolding md by (simp add: line fresh_def)
qed

section \<open>Failed listings\<close>

lemma dir_is_no_markdown: "entry_type d = ustr ''dir'' \<Longrightarrow> \<not> is_markdown d"
  by (auto simp: is_markdown_def ustr_def ord_def)

text \<open>
  C6. When the listing of a subdirectory answers with a status other than 200, the
  crawler issues that one request, prints the status and goes on with the remaining
  entries of the parent listing; when the root listing of a repository fails, the loop
  over the repositories goes on with the next one.
\<close>

theorem listing_failure_is_isolated:
  "(entry_type d = ustr ''dir'' \<and> basename (entry_path d) \<noteq> ustr ''zh'' \<and>
    status_code (net (Get (base_url r @ entry_path d) headers)) \<noteq> 200 \<longrightarrow>
      process_entries (Suc n) net demojize headers r (d # fs) st =
        process_entries (Suc n) net demojize headers r fs
          (emit (ErrorStatus (status_code (net (Get (base_url r @ entry_path d) headers))))
             (issue (Get (base_url r @ entry_path d) headers)
                (emit (Processing (entry_path d) (repo r)) st))))
   \<and> (basename (path r) \<noteq> ustr ''zh'' \<and>
      status_code (net (Get (base_url r @ path r) headers)) \<noteq> 200 \<longrightarrow>
      crawl_repos (Suc n) net demojize headers (r # rs) st =
        crawl_repos (Suc n) net demojize headers rs
          (emit (ErrorStatus (status_code (net (Get (base_url r @ path r) headers))))
             (issue (Get (base_url r @ path r) headers)
                (emit (Processing (path r) (repo r)) st))))"
  by (simp add: dir_is_no_markdown Let_def)

lemma broken_facts:
  "entry_type broken_entry = ustr ''dir''"
  "basename (entry_path broken_entry) \<noteq> ustr ''zh''"
  "status_code (sample_net (Get (base_url acme_docs @ entry_path broken_entry) token_headers)) \<noteq> 200"
  by (simp_all add: sample_net_broken server_error_def)
     (simp_all add: broken_entry_def basename_def ustr_def ord_def)

lemma sample_process_intro:
  "process_entries n sample_net (demojize_with emoji_data) token_headers acme_docs [intro_entry] st =
     Some (fetch_entry sample_net (demojize_with emoji_data) acme_docs intro_entry st)"
  by (simp add: is_markdown_samples fetch_entry_def)

theorem listing_failure_is_isolated_witness:
  "entry_type broken_entry = ustr ''dir'' \<and> basename (entry_path broken_entry) \<noteq> ustr ''zh'' \<and>
   status_code (sample_net (Get (base_url acme_docs @ entry_path broken_entry) token_headers)) \<noteq> 200 \<and>
   process_entries (Suc 0) sample_net (demojize_with emoji_data) token_headers acme_docs
       [broken_entry, intro_entry] fresh =
     Some \<lparr>requests = [Get (base_url acme_docs @ entry_path broken_entry) token_headers,
                        Get (download_url intro_entry) []],
           jsonl_file = intro_line,
           console = [Processing (entry_path broken_entry) (repo acme_docs), ErrorStatus 500,
                      Downloading (entry_name intro_entry), Url (download_url intro_entry)]\<rparr>"
proof -
  let ?st = "emit (ErrorStatus (status_code (sample_net (Get (base_url acme_docs @ entry_path broken_entry) token_headers))))
             (issue (Get (base_url acme_docs @ entry_path broken_entry) token_headers)
                (emit (Processing (entry_path broken_entry) (repo acme_docs)) fresh))"
  have step: "process_entries (Suc 0) sample_net (demojize_with emoji_data) token_headers acme_docs
          [broken_entry, intro_entry] fresh =
        process_entries (Suc 0) sample_net (demojize_with emoji_data) token_headers acme_docs
          [intro_entry] ?st"
    using broken_facts
      listing_failure_is_isolated [where d = broken_entry and net = sample_net and r = acme_docs
        and headers = token_headers and n = 0 and demojize = "demojize_with emoji_data"
        and fs = "[intro_entry]" and st = fresh]
    by blast
  have rest: "process_entries (Suc 0) sample_net (demojize_with emoji_data) token_headers acme_docs
          [intro_entry] ?st =
     Some \<lparr>requests = [Get (base_url acme_docs @ entry_path broken_entry) token_headers,
                        Get (download_url intro_entry) []],
           jsonl_file = intro_line,
           console = [Processing (entry_path broken_entry) (repo acme_docs), ErrorStatus 500,
                      Downloading (entry_name intro_entry), Url (download_url intro_entry)]\<rparr>"
    unfolding sample_process_intro sample_fetch_intro
    by (simp add: sample_net_broken server_error_def emit_def issue_def fresh_def)
  have "process_entries (Suc 0) sample_net (demojize_with emoji_data) token_headers acme_docs
          [broken_entry, intro_entry] fresh =
     Some \<lparr>requests = [Get (base_url acme_docs @ entry_path broken_entry) token_headers,
                        Get (download_url intro_entry) []],
           jsonl_file = intro_line,
           console = [Processing (entry_path broken_entry) (repo acme_docs), ErrorStatus 500,
                      Downloading (entry_name intro_entry), Url (download_url intro_entry)]\<rparr>"
    using step rest by (rule trans)
  then show ?thesis
    using broken_facts by blast
qed

section \<open>Directories that only resemble the skip marker\<close>

text \<open>
  C10. A path whose final segment is anything but \<open>zh\<close> is not skipped: the crawler
  prints that it processes the directory, issues the listing request and, on status
  200, runs the loop over the entries; otherwise it prints the status.
\<close>

theorem other_directories_listed:
  assumes "basename p \<noteq> ustr ''zh''"
  shows "process_directory (Suc n) net demojize headers r p st =
     (if status_code (net (Get (base_url r @ p) headers)) = 200 then
        map_option (emit (Finished p))
          (process_entries n net demojize headers r
             (response_json (net (Get (base_url r @ p) headers)))
             (issue (Get (base_url r @ p) headers) (emit (Processing p (repo r)) st)))
      else
        Some (emit (ErrorStatus (status_code (net (Get (base_url r @ p) headers))))
               (issue (Get (base_url r @ p) headers) (emit (Processing p (repo r)) st))))"
  using assms by (simp add: Let_def split: option.splits)

theorem other_directories_listed_witness:
  "basename (ustr ''zh-CN'') \<noteq> ustr ''zh'' \<and> basename (ustr ''zh_docs'') \<noteq> ustr ''zh'' \<and>
   basename (ustr ''docs/zhx'') \<noteq> ustr ''zh'' \<and>
   process_directory (Suc 0) sample_net (demojize_with emoji_data) token_headers acme_docs
       (ustr ''zh-CN'') fresh =
     Some \<lparr>requests = [Get (base_url acme_docs @ ustr ''zh-CN'') token_headers,
                        Get (download_url intro_entry) []],
           jsonl_file = intro_line,
           console = [Processing (ustr ''zh-CN'') (repo acme_docs),
                      Downloading (entry_name intro_entry), Url (download_url intro_entry),
                      Finished (ustr ''zh-CN'')]\<rparr>"
proof -
  have names: "basename (ustr ''zh-CN'') \<noteq> ustr ''zh''" "basename (ustr ''zh_docs'') \<noteq> ustr ''zh''"
    "basename (ustr ''docs/zhx'') \<noteq> ustr ''zh''"
    by (simp_all add: basename_def ustr_def ord_def)
  have "process_directory (Suc 0) sample_net (demojize_with emoji_data) token_headers acme_docs
       (ustr ''zh-CN'') fresh =
     Some \<lparr>requests = [Get (base_url acme_docs @ ustr ''zh-CN'') token_headers,
                        Get (download_url intro_entry) []],
           jsonl_file = intro_line,
           console = [Processing (ustr ''zh-CN'') (repo acme_docs),
                      Downloading (entry_name intro_entry), Url (download_url intro_entry),
                      Finished (ustr ''zh-CN'')]\<rparr>"
    unfolding other_directories_listed [OF names(1)] sample_net_locale
    by (simp add: sample_process_intro sample_fetch_intro emit_def issue_def fresh_def
        del: process_entries.simps)
  then show ?thesis
    using names by blast
qed

section \<open>Reading back what the sink wrote\<close>

lemma hex_value_digit: "d < 16 \<Longrightarrow> hex_value (hex_digit d) = Some d"
  by (simp add: hex_value_def hex_digit_def)

lemma hex4_sum:
  "4096 * (n div 4096) + 256 * (n div 256 mod 16) + 16 * (n div 16 mod 16) + n mod 16 = (n::nat)"
proof -
  have d2: "n div 256 = n div 16 div 16" and d3: "n div 4096 = n div 16 div 16 div 16"
    by (simp_all add: div_mult2_eq)
  have a: "n = 16 * (n div 16) + n mod 16" by simp
  have b: "n div 16 = 16 * (n div 16 div 16) + n div 16 mod 16" by simp
  have c: "n div 16 div 16 = 16 * (n div 16 div 16 div 16) + n div 16 div 16 mod 16" by simp
  show ?thesis
    unfolding d2 d3 using a b c by linarith
qed

lemma decode_hex4: "n < 65536 \<Longrightarrow> decode_uXXXX (hex4 n @ r) = Some n"
proof -
  assume n: "n < 65536"
  have d: "n div 4096 mod 16 = n div 4096" using n by simp
  have h: "hex_value (hex_digit (n div 4096)) = Some (n div 4096)"
    "hex_value (hex_digit (n div 256 mod 16)) = Some (n div 256 mod 16)"
    "hex_value (hex_digit (n div 16 mod 16)) = Some (n div 16 mod 16)"
    "hex_value (hex_digit (n mod 16)) = Some (n mod 16)"
    using n by (simp_all add: hex_value_digit)
  show ?thesis
    by (simp add: decode_uXXXX_def hex4_def d h hex4_sum)
qed

lemma hex4_length: "length (hex4 n) = 4"
  by (simp add: hex4_def)

lemma scanstring_plain:
  "32 \<le> c \<Longrightarrow> c \<noteq> 34 \<Longrightarrow> c \<noteq> 92 \<Longrightarrow> scanstring (c # rest) = cons_char c (scanstring rest)"
  by simp

lemma scanstring_short:
  "unescape e = Some c \<Longrightarrow> e \<noteq> 117 \<Longrightarrow> scanstring (92 # e # rest) = cons_char c (scanstring rest)"
  by simp

lemma scanstring_bmp:
  assumes "n < 65536" "n < 55296 \<or> 56319 < n"
  shows "scanstring ([92, 117] @ hex4 n @ rest) = cons_char n (scanstring rest)"
  using assms by (auto simp: decode_hex4 hex4_length)

lemma scanstring_pair_step:
  assumes "decode_uXXXX es = Some hi" "take 2 (drop 4 es) = [92, 117]"
    "decode_uXXXX (drop 6 es) = Some lo"
    "55296 \<le> hi" "hi \<le> 56319" "56320 \<le> lo" "lo \<le> 57343"
  shows "scanstring (92 # 117 # es) =
           cons_char (65536 + ((hi - 55296) * 1024 + (lo - 56320))) (scanstring (drop 10 es))"
  using assms by simp

lemma scanstring_pair:
  assumes "55296 \<le> hi" "hi \<le> 56319" "56320 \<le> lo" "lo \<le> 57343"
  shows "scanstring ([92, 117] @ hex4 hi @ [92, 117] @ hex4 lo @ rest) =
           cons_char (65536 + ((hi - 55296) * 1024 + (lo - 56320))) (scanstring rest)"
proof -
  let ?es = "hex4 hi @ [92, 117] @ hex4 lo @ rest"
  have d1: "decode_uXXXX ?es = Some hi"
    using assms by (simp add: decode_hex4)
  have d2: "decode_uXXXX (drop 6 ?es) = Some lo"
    using assms by (simp add: decode_hex4 hex4_length)
  have t: "take 2 (drop 4 ?es) = [92, 117]"
    by (simp add: hex4_length)
  have r: "drop 10 ?es = rest"
    by (simp add: hex4_length)
  have "scanstring (92 # 117 # ?es) =
      cons_char (65536 + ((hi - 55296) * 1024 + (lo - 56320))) (scanstring (drop 10 ?es))"
    using d1 t d2 assms by (rule scanstring_pair_step)
  then show ?thesis unfolding r by simp
qed

lemma scanstring_escape:
  assumes "scalar c"
  shows "scanstring (escape_char c @ rest) = cons_char c (scanstring rest)"
proof -
  consider (short) "c \<in> {34, 92, 10, 13, 9, 8, 12}"
    | (plain) "c \<notin> {34, 92, 10, 13, 9, 8, 12}" "32 \<le> c" "c \<le> 126"
    | (bmp) "c \<notin> {34, 92, 10, 13, 9, 8, 12}" "\<not> (32 \<le> c \<and> c \<le> 126)" "c < 65536"
    | (astral) "65536 \<le> c"
    by fastforce
  then show ?thesis
  proof cases
    case short
    then show ?thesis by (auto simp: escape_char_def unescape_def)
  next
    case plain
    then show ?thesis by (simp add: escape_char_def)
  next
    case bmp
    have "c < 55296 \<or> 56319 < c" using assms by (auto simp: scalar_def)
    from scanstring_bmp [OF bmp(3) this, of rest] bmp show ?thesis
      by (simp add: escape_char_def)
  next
    case astral
    let ?hi = "55296 + (c - 65536) div 1024 mod 1024"
    let ?lo = "56320 + (c - 65536) mod 1024"
    have small: "(c - 65536) div 1024 < 1024" using assms astral by (simp add: scalar_def)
    have joined: "65536 + ((?hi - 55296) * 1024 + (?lo - 56320)) = c"
      using astral small by simp
    have e: "escape_char c @ rest = [92, 117] @ hex4 ?hi @ [92, 117] @ hex4 ?lo @ rest"
      using astral by (simp add: escape_char_def)
    have "scanstring ([92, 117] @ hex4 ?hi @ [92, 117] @ hex4 ?lo @ rest) =
        cons_char (65536 + ((?hi - 55296) * 1024 + (?lo - 56320))) (scanstring rest)"
      by (rule scanstring_pair) simp_all
    then show ?thesis unfolding e joined .
  qed
qed

lemma scanstring_dumps:
  "list_all scalar s \<Longrightarrow> scanstring (concat (map escape_char s) @ 34 # rest) = Some (s, rest)"
  by (induction s) (simp_all add: scanstring_escape cons_char_def del: scanstring.simps, simp)

lemma parse_value_dumps:
  "list_all scalar v \<Longrightarrow> parse_value (dumps_str v @ rest) = Some (JString v, rest)"
  by (simp add: parse_value_def dumps_str_def scanstring_dumps)

lemma skip_ws_colon: "skip_ws (58 # 32 # dumps_str v @ rest) = 58 # 32 # dumps_str v @ rest"
  by (simp add: skip_ws_def is_json_ws_def)

lemma skip_ws_dumps_str: "skip_ws (dumps_str v @ rest) = dumps_str v @ rest"
  by (simp add: skip_ws_def is_json_ws_def dumps_str_def)

lemma skip_ws_space: "skip_ws (32 # s) = skip_ws s"
  by (simp add: skip_ws_def is_json_ws_def)

lemma skip_ws_brace: "skip_ws (125 # s) = 125 # s" and skip_ws_comma: "skip_ws (44 # s) = 44 # s"
  by (simp_all add: skip_ws_def is_json_ws_def)

lemma parse_members_last_value:
  assumes "list_all scalar k" "parse_value (dumps_str v @ 125 # rest) = Some (jv, 125 # rest)"
  shows "parse_members (Suc n) (concat (map escape_char k) @ 34 # 58 # 32 # dumps_str v @ 125 # rest) =
           Some ([(k, jv)], rest)"
proof -
  have key: "scanstring (concat (map escape_char k) @ 34 # 58 # 32 # dumps_str v @ 125 # rest) =
      Some (k, 58 # 32 # dumps_str v @ 125 # rest)"
    using assms(1) by (rule scanstring_dumps)
  show ?thesis
    unfolding parse_members.simps key
    using assms(2)
    by (simp add: skip_ws_colon skip_ws_space skip_ws_dumps_str skip_ws_brace)
qed

lemma parse_members_last:
  assumes "list_all scalar k" "list_all scalar v"
  shows "parse_members (Suc n) (concat (map escape_char k) @ 34 # 58 # 32 # dumps_str v @ 125 # rest) =
           Some ([(k, JString v)], rest)"
  using assms(1) parse_value_dumps [OF assms(2)] by (rule parse_members_last_value)

lemma parse_members_more:
  assumes "list_all scalar k" "list_all scalar v"
  shows "parse_members (Suc n)
           (concat (map escape_char k) @ 34 # 58 # 32 # dumps_str v @ 44 # 32 # 34 # tail) =
           (case parse_members n tail of
              None \<Rightarrow> None
            | Some (kvs, r) \<Rightarrow> Some ((k, JString v) # kvs, r))"
proof -
  have key: "scanstring (concat (map escape_char k) @ 34 # 58 # 32 # dumps_str v @ 44 # 32 # 34 # tail) =
      Some (k, 58 # 32 # dumps_str v @ 44 # 32 # 34 # tail)"
    using assms(1) by (rule scanstring_dumps)
  have quote: "skip_ws (34 # tail) = 34 # tail"
    by (simp add: skip_ws_def is_json_ws_def)
  show ?thesis
    unfolding parse_members.simps key
    using assms(2)
    by (simp add: skip_ws_colon skip_ws_space skip_ws_dumps_str parse_value_dumps skip_ws_comma quote)
qed

lemma dumps_items_quote: "d \<noteq> [] \<Longrightarrow> \<exists>t. dumps_items d = 34 # t"
  by (induction d rule: dumps_items.induct) (simp_all add: dumps_str_def)

lemma parse_members_dumps:
  assumes "valid_dict d" "d \<noteq> []" "length d \<le> n"
  shows "parse_members n (tl (dumps_items d) @ 125 # rest) = Some (as_json d, rest)"
  using assms
proof (induction d arbitrary: n rule: dumps_items.induct)
  case 1
  then show ?case by simp
next
  case (2 k v)
  then obtain m where n: "n = Suc m" by (cases n) auto
  have kv: "list_all scalar k" "list_all scalar v"
    using 2 by (simp_all add: valid_dict_def)
  have shape: "tl (dumps_items [(k, v)]) @ 125 # rest =
      concat (map escape_char k) @ 34 # 58 # 32 # dumps_str v @ 125 # rest"
    by (simp add: dumps_str_def)
  show ?case
    unfolding n shape parse_members_last [OF kv] by (simp add: as_json_def)
next
  case (3 k v p ps)
  then obtain m where n: "n = Suc m" by (cases n) auto
  have rest_ok: "valid_dict (p # ps)" "length (p # ps) \<le> m"
    using 3 by (simp_all add: valid_dict_def n)
  have ih: "parse_members m (tl (dumps_items (p # ps)) @ 125 # rest) = Some (as_json (p # ps), rest)"
    using 3 rest_ok by simp
  have kv: "list_all scalar k" "list_all scalar v"
    using 3 by (simp_all add: valid_dict_def)
  obtain t where t: "dumps_items (p # ps) = 34 # t"
    using dumps_items_quote [of "p # ps"] by auto
  have shape: "tl (dumps_items ((k, v) # p # ps)) @ 125 # rest =
      concat (map escape_char k) @ 34 # 58 # 32 # dumps_str v @ 44 # 32 # 34 # (t @ 125 # rest)"
    unfolding dumps_items.simps t by (simp add: dumps_str_def)
  have ih': "parse_members m (t @ 125 # rest) = Some (as_json (p # ps), rest)"
    using ih unfolding t by simp
  show ?case
    unfolding n shape parse_members_more [OF kv] ih'
    by (simp add: as_json_def)
qed

lemma dumps_items_length: "length d \<le> length (dumps_items d)"
  by (induction d rule: dumps_items.induct) (simp_all add: dumps_str_def)

lemma json_loads_dumps:
  assumes "valid_dict d"
  shows "json_loads (json_dumps d @ [10]) = Some (JObject (as_json d))"
proof (cases "d = []")
  case True
  then show ?thesis
    by (simp add: json_loads_def json_dumps_def parse_object_def skip_ws_def is_json_ws_def
        as_json_def)
next
  case False
  then obtain t where t: "dumps_items d = 34 # t"
    using dumps_items_quote by blast
  have len: "length d \<le> length (t @ [125, 10])"
    using dumps_items_length [of d] by (simp add: t)
  have "parse_members (length (t @ [125, 10])) (tl (dumps_items d) @ 125 # [10]) =
      Some (as_json d, [10])"
    using assms False len by (rule parse_members_dumps)
  then have members: "parse_members (length (t @ [125, 10])) (t @ [125, 10]) = Some (as_json d, [10])"
    by (simp add: t)
  have obj: "parse_object (34 # t @ [125, 10]) = Some (JObject (as_json d), [10])"
    unfolding parse_object_def using members by (simp add: skip_ws_def is_json_ws_def)
  show ?thesis
    using obj by (simp add: json_loads_def json_dumps_def t skip_ws_def is_json_ws_def)
qed

lemma reader_loads_dumps:
  "valid_dict d \<Longrightarrow> reader_loads (json_dumps d @ [10]) = Some (JObject (as_json d))"
  using json_loads_dumps [of d] by (simp add: reader_loads_def json_dumps_def)

lemma hex_digit_not_return: "hex_digit d \<noteq> 13"
  by (simp add: hex_digit_def)

lemma escape_char_no_return: "13 \<notin> set (escape_char c)"
  by (simp add: escape_char_def hex4_def hex_digit_not_return)

lemma json_dumps_no_return: "13 \<notin> set (json_dumps d)"
proof -
  have s: "13 \<notin> set (dumps_str s)" for s
    by (auto simp: dumps_str_def escape_char_no_return)
  have "13 \<notin> set (dumps_items d)"
    by (induction d rule: dumps_items.induct) (auto simp: s)
  then show ?thesis by (simp add: json_dumps_def)
qed

lemma universal_newlines_id: "13 \<notin> set s \<Longrightarrow> universal_newlines s = s"
  by (induction s) auto

lemma split_lines_line:
  "10 \<notin> set l \<Longrightarrow> split_lines acc (l @ 10 # rest) = (acc @ l @ [10]) # split_lines [] rest"
  by (induction l arbitrary: acc) auto

lemma foldl_sink_append:
  "foldl (\<lambda>c d. sink_append d c) content ds = content @ concat (map (\<lambda>d. json_dumps d @ [10]) ds)"
  by (induction ds arbitrary: content) (simp_all add: sink_append_def)

lemma split_lines_dumps:
  "split_lines [] (concat (map (\<lambda>d. json_dumps d @ [10]) ds)) = map (\<lambda>d. json_dumps d @ [10]) ds"
proof (induction ds)
  case Nil
  then show ?case by simp
next
  case (Cons d ds)
  show ?case
    using split_lines_line [OF json_dumps_no_newline, of "[]" d] Cons by simp
qed

lemma file_lines_dumps:
  "file_lines (concat (map (\<lambda>d. json_dumps d @ [10]) ds)) = map (\<lambda>d. json_dumps d @ [10]) ds"
proof -
  have "13 \<notin> set (concat (map (\<lambda>d. json_dumps d @ [10]) ds))"
    by (induction ds) (simp_all add: json_dumps_no_return)
  then show ?thesis
    by (simp add: file_lines_def universal_newlines_id split_lines_dumps)
qed

lemma load_lines_dumps:
  "list_all valid_dict ds \<Longrightarrow>
   load_lines reader_loads (map (\<lambda>d. json_dumps d @ [10]) ds) = Inr (map (\<lambda>d. to_document (as_json d)) ds)"
  by (induction ds) (simp_all add: reader_loads_dumps)

lemma to_document_file_dict:
  "to_document (as_json (file_dict f r t)) = record_document f r t"
  by (simp add: to_document_def record_document_def dict_get_def as_json_def file_dict_def
      ustr_def ord_def)

lemma write_records_eq:
  "write_records recs content =
     foldl (\<lambda>c d. sink_append d c) content (map (\<lambda>(f, r, t). file_dict f r t) recs)"
  by (induction recs arbitrary: content) (simp_all add: write_records_def split_def)

lemma valid_record_dict: "valid_record (f, r, t) \<Longrightarrow> valid_dict (file_dict f r t)"
  by (simp add: valid_record_def valid_dict_def file_dict_def ustr_def ord_def scalar_def)

text \<open>
  C7. For records whose strings hold no surrogate code points, writing them through the
  sink to a fresh file and loading that file returns one document per record, in the
  order written, with the text as page content and the title, owner and name as
  metadata.
\<close>

theorem sink_loader_round_trip:
  assumes "\<forall>rec \<in> set recs. valid_record rec"
  shows "load reader_loads (write_records recs []) =
           Inr (map (\<lambda>(f, r, t). record_document f r t) recs)"
proof -
  let ?ds = "map (\<lambda>(f, r, t). file_dict f r t) recs"
  have valid: "list_all valid_dict ?ds"
    using assms by (auto simp: list_all_iff valid_record_dict)
  have w: "write_records recs [] = concat (map (\<lambda>d. json_dumps d @ [10]) ?ds)"
    unfolding write_records_eq foldl_sink_append by simp
  show ?thesis
    unfolding load_def w file_lines_dumps load_lines_dumps [OF valid]
    by (simp add: to_document_file_dict split_def comp_def)
qed

theorem sink_loader_round_trip_witness:
  "valid_record (ustr ''intro.md'', acme_docs, ustr ''Hello'') \<and>
   valid_record (ustr ''a.md'', acme_docs, [233, 10, 127881]) \<and>
   load reader_loads
     (write_records [(ustr ''intro.md'', acme_docs, ustr ''Hello''), (ustr ''a.md'', acme_docs, [233, 10, 127881])] []) =
     Inr [record_document (ustr ''intro.md'') acme_docs (ustr ''Hello''),
          record_document (ustr ''a.md'') acme_docs [233, 10, 127881]]"
proof -
  have v: "\<forall>rec \<in> set [(ustr ''intro.md'', acme_docs, ustr ''Hello''), (ustr ''a.md'', acme_docs, [233, 10, 127881])].
      valid_record rec"
    by (simp add: valid_record_def acme_docs_def ustr_def ord_def scalar_def)
  show ?thesis
    using v sink_loader_round_trip [OF v] by simp
qed

text \<open>
  A string that holds a high surrogate followed by a low one is written as two
  \<open>\u\<close> escapes, which the parser reads as one code point: such a record does not
  come back as it was written.
\<close>

lemma parse_value_surrogates:
  "parse_value (dumps_str [55356, 57225] @ rest) = Some (JString [127881], rest)"
proof -
  have e: "dumps_str [55356, 57225] @ rest =
      34 # ([92, 117] @ hex4 55356 @ [92, 117] @ hex4 57225 @ 34 # rest)"
    by (simp add: dumps_str_def escape_char_def)
  have "scanstring ([92, 117] @ hex4 55356 @ [92, 117] @ hex4 57225 @ 34 # rest) =
      cons_char (65536 + ((55356 - 55296) * 1024 + (57225 - 56320))) (scanstring (34 # rest))"
    by (rule scanstring_pair) simp_all
  then have "scanstring ([92, 117] @ hex4 55356 @ [92, 117] @ hex4 57225 @ 34 # rest) =
      Some ([127881], rest)"
    by (simp add: cons_char_def)
  then show ?thesis
    unfolding e parse_value_def by simp
qed

lemma loads_surrogates:
  "reader_loads (json_dumps (file_dict f r [55356, 57225]) @ [10]) =
     Some (JObject (as_json (file_dict f r [127881])))"
  if "list_all scalar f" "list_all scalar (owner r)" "list_all scalar (repo r)"
proof -
  have keys: "list_all scalar (ustr ''title'')" "list_all scalar (ustr ''repo_owner'')"
    "list_all scalar (ustr ''repo_name'')" "list_all scalar (ustr ''text'')"
    by (simp_all add: ustr_def ord_def scalar_def)
  let ?v = "dumps_str [55356, 57225]"
  have m4: "parse_members (Suc n) (concat (map escape_char (ustr ''text'')) @ 34 # 58 # 32 # ?v @ 125 # [10]) =
      Some ([(ustr ''text'', JString [127881])], [10])" for n
    using keys(4) parse_value_surrogates by (rule parse_members_last_value)
  have m3: "parse_members (Suc (Suc n))
      (concat (map escape_char (ustr ''repo_name'')) @ 34 # 58 # 32 # dumps_str (repo r) @ 44 # 32 # 34 #
       (concat (map escape_char (ustr ''text'')) @ 34 # 58 # 32 # ?v @ 125 # [10])) =
      Some ([(ustr ''repo_name'', JString (repo r)), (ustr ''text'', JString [127881])], [10])" for n
    unfolding parse_members_more [OF keys(3) that(3)] m4 by simp
  have m2: "parse_members (Suc (Suc (Suc n)))
      (concat (map escape_char (ustr ''repo_owner'')) @ 34 # 58 # 32 # dumps_str (owner r) @ 44 # 32 # 34 #
       (concat (map escape_char (ustr ''repo_name'')) @ 34 # 58 # 32 # dumps_str (repo r) @ 44 # 32 # 34 #
       (concat (map escape_char (ustr ''text'')) @ 34 # 58 # 32 # ?v @ 125 # [10]))) =
      Some ([(ustr ''repo_owner'', JString (owner r)), (ustr ''repo_name'', JString (repo r)),
             (ustr ''text'', JString [127881])], [10])" for n
    unfolding parse_members_more [OF keys(2) that(2)] m3 by simp
  have m1: "parse_members (Suc (Suc (Suc (Suc n))))
      (concat (map escape_char (ustr ''title'')) @ 34 # 58 # 32 # dumps_str f @ 44 # 32 # 34 #
       (concat (map escape_char (ustr ''repo_owner'')) @ 34 # 58 # 32 # dumps_str (owner r) @ 44 # 32 # 34 #
       (concat (map escape_char (ustr ''repo_name'')) @ 34 # 58 # 32 # dumps_str (repo r) @ 44 # 32 # 34 #
       (concat (map escape_char (ustr ''text'')) @ 34 # 58 # 32 # ?v @ 125 # [10])))) =
      Some (as_json (file_dict f r [127881]), [10])" for n
    unfolding parse_members_more [OF keys(1) that(1)] m2 by (simp add: as_json_def file_dict_def)
  obtain t where t: "json_dumps (file_dict f r [55356, 57225]) @ [10] = 123 # 34 # t"
    and tm: "t = concat (map escape_char (ustr ''title'')) @ 34 # 58 # 32 # dumps_str f @ 44 # 32 # 34 #
       (concat (map escape_char (ustr ''repo_owner'')) @ 34 # 58 # 32 # dumps_str (owner r) @ 44 # 32 # 34 #
       (concat (map escape_char (ustr ''repo_name'')) @ 34 # 58 # 32 # dumps_str (repo r) @ 44 # 32 # 34 #
       (concat (map escape_char (ustr ''text'')) @ 34 # 58 # 32 # ?v @ 125 # [10])))"
    by (simp add: json_dumps_def file_dict_def dumps_str_def)
  have long: "4 \<le> length t"
    unfolding tm by (simp add: ustr_def)
  then obtain n where "length t = 4 + n"
    using le_Suc_ex by blast
  then have n: "length t = Suc (Suc (Suc (Suc n)))"
    by simp
  have "parse_members (length t) t = Some (as_json (file_dict f r [127881]), [10])"
    unfolding n unfolding tm by (rule m1)
  then show ?thesis
    unfolding t by (simp add: reader_loads_def json_loads_def parse_object_def skip_ws_def is_json_ws_def)
qed

theorem round_trip_counterexample:
  "load reader_loads (write_records [(ustr ''a.md'', acme_docs, [55356, 57225])] []) \<noteq>
     Inr (map (\<lambda>(f, r, t). record_document f r t) [(ustr ''a.md'', acme_docs, [55356, 57225])])"
proof -
  have ok: "list_all scalar (ustr ''a.md'')" "list_all scalar (owner acme_docs)"
    "list_all scalar (repo acme_docs)"
    by (simp_all add: acme_docs_def ustr_def ord_def scalar_def)
  have lines: "file_lines (write_records [(ustr ''a.md'', acme_docs, [55356, 57225])] []) =
      [json_dumps (file_dict (ustr ''a.md'') acme_docs [55356, 57225]) @ [10]]"
    using file_lines_dumps [of "[file_dict (ustr ''a.md'') acme_docs [55356, 57225]]"]
    by (simp add: write_records_def sink_append_def)
  have "load reader_loads (write_records [(ustr ''a.md'', acme_docs, [55356, 57225])] []) =
      Inr [record_document (ustr ''a.md'') acme_docs [127881]]"
    unfolding load_def lines
    by (simp add: loads_surrogates [OF ok] to_document_file_dict)
  then show ?thesis
    by (simp add: record_document_def)
qed

section \<open>Missing fields\<close>

lemma dict_get_missing: "k \<notin> fst ` set obj \<Longrightarrow> dict_get obj k d = d"
proof -
  assume "k \<notin> fst ` set obj"
  then have "map_of (rev obj) k = None"
    by (simp add: map_of_eq_None_iff)
  then show ?thesis by (simp add: dict_get_def)
qed

lemma load_lines_objects:
  "map parse ls = map (\<lambda>obj. Some (JObject obj)) objs \<Longrightarrow>
   load_lines parse ls = Inr (map to_document objs)"
proof (induction ls arbitrary: objs)
  case Nil
  then show ?case by simp
next
  case (Cons l ls)
  then obtain obj rest where objs: "objs = obj # rest" by (cases objs) auto
  from Cons show ?case by (simp add: objs)
qed

lemma metadata_keys_differ:
  "ustr ''title'' \<noteq> ustr ''repo_owner''" "ustr ''title'' \<noteq> ustr ''repo_name''"
  "ustr ''repo_owner'' \<noteq> ustr ''repo_name''"
  by (simp_all add: ustr_def ord_def)

lemma to_document_defaults:
  "ustr ''text'' \<notin> fst ` set obj \<Longrightarrow> page_content (to_document obj) = JString []"
  "ustr ''title'' \<notin> fst ` set obj \<Longrightarrow>
     map_of (metadata (to_document obj)) (ustr ''title'') = Some (JString [])"
  "ustr ''repo_owner'' \<notin> fst ` set obj \<Longrightarrow>
     map_of (metadata (to_document obj)) (ustr ''repo_owner'') = Some (JString [])"
  "ustr ''repo_name'' \<notin> fst ` set obj \<Longrightarrow>
     map_of (metadata (to_document obj)) (ustr ''repo_name'') = Some (JString [])"
  using metadata_keys_differ
  by (simp_all add: to_document_def dict_get_missing del: image_eqI)

text \<open>
  C8. When every line of the file parses as a JSON object, \<open>load\<close> returns one
  document per line and raises nothing; a field that an object lacks comes out as the
  empty string, in the page content for \<open>text\<close> and in the metadata for \<open>title\<close>,
  \<open>repo_owner\<close> and \<open>repo_name\<close>.
\<close>

theorem loader_defaults_missing_fields:
  assumes "map parse (file_lines content) = map (\<lambda>obj. Some (JObject obj)) objs"
  shows "load parse content = Inr (map to_document objs) \<and>
         (\<forall>obj \<in> set objs.
            (ustr ''text'' \<notin> fst ` set obj \<longrightarrow> page_content (to_document obj) = JString []) \<and>
            (ustr ''title'' \<notin> fst ` set obj \<longrightarrow>
               map_of (metadata (to_document obj)) (ustr ''title'') = Some (JString [])) \<and>
            (ustr ''repo_owner'' \<notin> fst ` set obj \<longrightarrow>
               map_of (metadata (to_document obj)) (ustr ''repo_owner'') = Some (JString [])) \<and>
            (ustr ''repo_name'' \<notin> fst ` set obj \<longrightarrow>
               map_of (metadata (to_document obj)) (ustr ''repo_name'') = Some (JString [])))"
proof -
  have "load parse content = Inr (map to_document objs)"
    unfolding load_def using assms by (rule load_lines_objects)
  then show ?thesis
    using to_document_defaults by blast
qed

lemmas ev_loads = reader_loads_def json_loads_def parse_object_def parse_value_def skip_ws_def
  is_json_ws_def decode_uXXXX_def hex_value_def unescape_def cons_char_def

lemma sample_lines:
  "file_lines (ustr ''{\"title\": \"t\"}'' @ [10] @ ustr ''{}'' @ [10]) =
     [ustr ''{\"title\": \"t\"}'' @ [10], ustr ''{}'' @ [10]]"
  by (simp add: file_lines_def ustr_def ord_def)

lemma sample_parse_title:
  "reader_loads (ustr ''{\"title\": \"t\"}'' @ [10]) = Some (JObject [(ustr ''title'', JString (ustr ''t''))])"
  by (simp add: ev_loads ustr_def ord_def)

lemma sample_parse_empty: "reader_loads (ustr ''{}'' @ [10]) = Some (JObject [])"
  by (simp add: ev_loads ustr_def ord_def)

theorem loader_defaults_missing_fields_witness:
  "map reader_loads (file_lines (ustr ''{\"title\": \"t\"}'' @ [10] @ ustr ''{}'' @ [10])) =
     map (\<lambda>obj. Some (JObject obj)) [[(ustr ''title'', JString (ustr ''t''))], []] \<and>
   load reader_loads (ustr ''{\"title\": \"t\"}'' @ [10] @ ustr ''{}'' @ [10]) =
     Inr [\<lparr>page_content = JString [],
           metadata = [(ustr ''title'', JString (ustr ''t'')), (ustr ''repo_owner'', JString []),
                       (ustr ''repo_name'', JString [])]\<rparr>,
          \<lparr>page_content = JString [],
           metadata = [(ustr ''title'', JString []), (ustr ''repo_owner'', JString []),
                       (ustr ''repo_name'', JString [])]\<rparr>]"
proof -
  have h: "map reader_loads (file_lines (ustr ''{\"title\": \"t\"}'' @ [10] @ ustr ''{}'' @ [10])) =
     map (\<lambda>obj. Some (JObject obj)) [[(ustr ''title'', JString (ustr ''t''))], []]"
    unfolding sample_lines by (simp add: sample_parse_title sample_parse_empty)
  have d: "map to_document [[(ustr ''title'', JString (ustr ''t''))], []] =
      [\<lparr>page_content = JString [],
           metadata = [(ustr ''title'', JString (ustr ''t'')), (ustr ''repo_owner'', JString []),
                       (ustr ''repo_name'', JString [])]\<rparr>,
          \<lparr>page_content = JString [],
           metadata = [(ustr ''title'', JString []), (ustr ''repo_owner'', JString []),
                       (ustr ''repo_name'', JString [])]\<rparr>]"
    by (simp add: to_document_def dict_get_def ustr_def ord_def)
  from loader_defaults_missing_fields [OF h]
  have "load reader_loads (ustr ''{\"title\": \"t\"}'' @ [10] @ ustr ''{}'' @ [10]) =
      Inr (map to_document [[(ustr ''title'', JString (ustr ''t''))], []])"
    by blast
  then show ?thesis
    using h unfolding d by blast
qed

section \<open>Facts about the matcher\<close>

lemma star_matches_suffix: "t \<in> set (star_matches p s) \<Longrightarrow> suffix t s"
  by (induction s) (auto simp: suffix_Cons split: if_splits)

lemma matches_suffix: "t \<in> set (matches r s) \<Longrightarrow> suffix t s"
proof (induction r arbitrary: s t)
  case (Chr c)
  then show ?case by (auto simp: suffix_Cons split: list.splits if_splits)
next
  case (Str w)
  then show ?case by (auto simp: suffix_drop split: if_splits)
next
  case (Cls p)
  then show ?case by (auto simp: suffix_Cons split: list.splits if_splits)
next
  case (Star p)
  then show ?case by (simp add: star_matches_suffix)
next
  case (Plus p)
  then show ?case
    by (auto simp: suffix_Cons dest: star_matches_suffix split: list.splits if_splits)
next
  case (Seq r1 r2)
  from Seq.prems obtain u where "u \<in> set (matches r1 s)" "t \<in> set (matches r2 u)"
    by auto
  then have "suffix u s" "suffix t u"
    using Seq.IH by blast+
  then show ?case by (rule suffix_order.trans [rotated])
next
  case (Alt r1 r2)
  then show ?case by auto
qed

lemma re_match_suffix: "re_match r s = Some t \<Longrightarrow> suffix t s"
proof -
  assume "re_match r s = Some t"
  then have "t \<in> set (matches r s)"
    by (auto simp: re_match_def split: list.splits)
  then show ?thesis by (rule matches_suffix)
qed

lemma re_sub_subseq: "subseq (re_sub r [] s) s"
proof (induction r "[] :: pystr" s rule: re_sub.induct)
  case (1 r)
  then show ?case by simp
next
  case (2 r c cs)
  show ?case
  proof (cases "re_match r (c # cs)")
    case None
    with 2 show ?thesis by simp
  next
    case (Some t)
    show ?thesis
    proof (cases "length t \<le> length cs")
      case True
      have "suffix t (c # cs)" using Some by (rule re_match_suffix)
      then have "suffix t cs" using True by (auto simp: suffix_Cons)
      then have "subseq t (c # cs)"
        by (meson subseq_Cons' suffix_imp_subseq subseq_order.trans list_emb_Cons)
      moreover have "subseq (re_sub r [] t) t" using 2(2) Some True by simp
      ultimately show ?thesis using Some True by (auto intro: subseq_order.trans)
    next
      case False
      with 2 Some show ?thesis by simp
    qed
  qed
qed

lemma re_sub_set: "set (re_sub r [] s) \<subseteq> set s"
  using re_sub_subseq [of r s] by (auto dest: list_emb_set)

lemma re_sub_no_match: "\<not> re_search r s \<Longrightarrow> re_sub r repl s = s"
  by (induction s) auto

section \<open>Tags and newlines\<close>

lemma tag_tail_matches:
  "concat (map (matches (Chr 62)) (star_matches (\<lambda>c. c \<noteq> 62) r)) =
     (if 62 \<in> set r then [tl (dropWhile (\<lambda>c. c \<noteq> 62) r)] else [])"
  by (induction r) auto

lemma re_match_tag:
  "re_match tag_re (c # cs) =
     (if c = 60 \<and> 62 \<in> set cs then Some (tl (dropWhile (\<lambda>c. c \<noteq> 62) cs)) else None)"
  by (simp add: re_match_def tag_re_def tag_tail_matches)

lemma re_match_tag_Nil: "re_match tag_re [] = None"
  by (simp add: re_match_def tag_re_def)

lemma re_search_tag_Cons:
  "re_search tag_re (c # cs) \<longleftrightarrow> (c = 60 \<and> 62 \<in> set cs) \<or> re_search tag_re cs"
  by (auto simp: re_match_tag)

lemma re_search_tag_Nil: "\<not> re_search tag_re []"
  by (simp add: re_match_tag_Nil)

lemma tag_free_subseq:
  "subseq t s \<Longrightarrow> \<not> re_search tag_re s \<Longrightarrow> \<not> re_search tag_re t"
proof (induction rule: list_emb.induct)
  case (list_emb_Nil ys)
  then show ?case by (simp add: re_search_tag_Nil del: re_search.simps)
next
  case (list_emb_Cons xs ys y)
  then show ?case by (simp add: re_search_tag_Cons del: re_search.simps)
next
  case (list_emb_Cons2 x y xs ys)
  then have "set xs \<subseteq> set ys" by (auto dest: list_emb_set)
  with list_emb_Cons2 show ?case by (auto simp: re_search_tag_Cons simp del: re_search.simps)
qed

lemma tag_free_re_sub_tag: "\<not> re_search tag_re (re_sub tag_re [] s)"
proof (induction s rule: length_induct)
  case (1 s)
  show ?case
  proof (cases s)
    case Nil
    then show ?thesis by (simp add: re_search_tag_Nil del: re_search.simps)
  next
    case (Cons c cs)
    show ?thesis
    proof (cases "c = 60 \<and> 62 \<in> set cs")
      case True
      let ?t = "tl (dropWhile (\<lambda>c. c \<noteq> 62) cs)"
      have "length (dropWhile (\<lambda>c. c \<noteq> 62) cs) \<le> length cs"
        by (rule length_dropWhile_le)
      then have short: "length ?t < length s"
        using Cons by simp
      have less: "length ?t \<le> length cs"
        using \<open>length (dropWhile (\<lambda>c. c \<noteq> 62) cs) \<le> length cs\<close> by simp
      have "re_match tag_re (c # cs) = Some ?t"
        using True by (simp add: re_match_tag)
      then have "re_sub tag_re [] s = re_sub tag_re [] ?t"
        using less by (simp add: Cons)
      moreover have "\<not> re_search tag_re (re_sub tag_re [] ?t)"
        using 1 short by blast
      ultimately show ?thesis by simp
    next
      case False
      then have "re_match tag_re (c # cs) = None"
        by (auto simp: re_match_tag)
      then have step: "re_sub tag_re [] s = c # re_sub tag_re [] cs"
        by (simp add: Cons)
      have "\<not> re_search tag_re (re_sub tag_re [] cs)"
        using 1 Cons by (simp del: re_search.simps)
      moreover have "c = 60 \<Longrightarrow> 62 \<notin> set (re_sub tag_re [] cs)"
        using False re_sub_set [of tag_re cs] by auto
      ultimately show ?thesis
        by (auto simp: step re_search_tag_Cons simp del: re_search.simps)
    qed
  qed
qed

lemma tag_free_replace_newlines:
  "\<not> re_search tag_re s \<Longrightarrow> \<not> re_search tag_re (replace_newlines s)"
proof (induction s)
  case Nil
  then show ?case by (simp add: replace_newlines_def)
next
  case (Cons c cs)
  have gt: "62 \<in> set (replace_newlines cs) \<longleftrightarrow> 62 \<in> set cs"
    by (auto simp: replace_newlines_def)
  have step: "replace_newlines (c # cs) = (if c = 10 then 32 else c) # replace_newlines cs"
    by (simp add: replace_newlines_def)
  from Cons.prems have "\<not> (c = 60 \<and> 62 \<in> set cs)" "\<not> re_search tag_re cs"
    by (simp_all add: re_search_tag_Cons del: re_search.simps)
  then show ?case
    using Cons.IH unfolding step by (simp add: re_search_tag_Cons gt del: re_search.simps)
qed

lemma replace_newlines_no_newline: "10 \<notin> set (replace_newlines s)"
  by (auto simp: replace_newlines_def)

lemma replace_newlines_id: "10 \<notin> set s \<Longrightarrow> replace_newlines s = s"
  by (induction s) (auto simp: replace_newlines_def)

lemma replace_newlines_subseq: "subseq t s \<Longrightarrow> subseq (replace_newlines t) (replace_newlines s)"
  unfolding replace_newlines_def by (rule subseq_map)

text \<open>The text that reaches demojize.\<close>

lemma preprocess_text_stages:
  "preprocess_text demojize s = re_sub token_re [] (demojize (before_demojize s))"
  by (simp add: preprocess_text_def before_demojize_def Let_def)

lemma before_demojize_tag_free: "\<not> re_search tag_re (before_demojize s)"
proof -
  have "subseq (re_sub url_re [] (re_sub tag_re [] s)) (re_sub tag_re [] s)"
    by (rule re_sub_subseq)
  with re_sub_subseq
  have "subseq (re_sub copyright_re [] (re_sub url_re [] (re_sub tag_re [] s))) (re_sub tag_re [] s)"
    by (rule subseq_order.trans)
  then have "\<not> re_search tag_re (re_sub copyright_re [] (re_sub url_re [] (re_sub tag_re [] s)))"
    using tag_free_re_sub_tag by (rule tag_free_subseq)
  then show ?thesis
    unfolding before_demojize_def by (rule tag_free_replace_newlines)
qed

lemma before_demojize_subseq: "subseq (before_demojize s) (replace_newlines s)"
proof -
  have "subseq (re_sub url_re [] (re_sub tag_re [] s)) (re_sub tag_re [] s)"
    by (rule re_sub_subseq)
  with re_sub_subseq
  have "subseq (re_sub copyright_re [] (re_sub url_re [] (re_sub tag_re [] s))) (re_sub tag_re [] s)"
    by (rule subseq_order.trans)
  then have "subseq (re_sub copyright_re [] (re_sub url_re [] (re_sub tag_re [] s))) s"
    using re_sub_subseq by (rule subseq_order.trans)
  then show ?thesis
    unfolding before_demojize_def by (rule replace_newlines_subseq)
qed

text \<open>
  C2. For a demojize that creates no tag and no newline, the output of
  \<open>preprocess_text\<close> holds no \<open><...>\<close> match and no newline; and where demojize leaves
  the text as it is, the output is a subsequence of the input with its newlines
  replaced by spaces: characters are deleted, never changed or reordered.
\<close>

theorem preprocess_text_removes_tags_and_newlines:
  assumes "\<forall>t. \<not> re_search tag_re t \<longrightarrow> \<not> re_search tag_re (demojize t)"
    and "\<forall>t. 10 \<notin> set t \<longrightarrow> 10 \<notin> set (demojize t)"
  shows "\<not> re_search tag_re (preprocess_text demojize s) \<and>
         10 \<notin> set (preprocess_text demojize s) \<and>
         (demojize (before_demojize s) = before_demojize s \<longrightarrow>
            subseq (preprocess_text demojize s) (replace_newlines s))"
proof -
  have tags: "\<not> re_search tag_re (demojize (before_demojize s))"
    using assms(1) before_demojize_tag_free by blast
  have "\<not> re_search tag_re (preprocess_text demojize s)"
    unfolding preprocess_text_stages using re_sub_subseq tags by (rule tag_free_subseq)
  moreover have "10 \<notin> set (demojize (before_demojize s))"
    using assms(2) replace_newlines_no_newline by (simp add: before_demojize_def)
  then have "10 \<notin> set (preprocess_text demojize s)"
    unfolding preprocess_text_stages
    using re_sub_set [of token_re "demojize (before_demojize s)"] by auto
  moreover have "subseq (preprocess_text demojize s) (replace_newlines s)"
    if "demojize (before_demojize s) = before_demojize s"
    unfolding preprocess_text_stages that
    using re_sub_subseq before_demojize_subseq by (rule subseq_order.trans)
  ultimately show ?thesis by blast
qed

section \<open>The table-driven demojize keeps text free of tags and newlines\<close>

lemma emoji_at_step:
  "foldl (\<lambda>best (k, n).
            if k \<noteq> [] \<and> prefix k s \<and>
               (case best of None \<Rightarrow> True | Some (k', _) \<Rightarrow> length k' < length k)
            then Some (k, n) else best) acc tbl = Some e \<Longrightarrow> Some e = acc \<or> e \<in> set tbl"
proof (induction tbl arbitrary: acc)
  case Nil
  then show ?case by simp
next
  case (Cons p tbl)
  obtain a b where p: "p = (a, b)" by (cases p)
  let ?acc = "if a \<noteq> [] \<and> prefix a s \<and>
                 (case acc of None \<Rightarrow> True | Some (k', _) \<Rightarrow> length k' < length a)
              then Some (a, b) else acc"
  from Cons.prems have "Some e = ?acc \<or> e \<in> set tbl"
    by (intro Cons.IH) (simp add: p)
  then show ?case
    by (auto simp: p split: if_splits)
qed

lemma emoji_at_in_table: "emoji_at tbl s = Some (k, n) \<Longrightarrow> (k, n) \<in> set tbl"
  unfolding emoji_at_def by (drule emoji_at_step) simp

lemma names_avoid_entry: "names_avoid c tbl \<Longrightarrow> (k, n) \<in> set tbl \<Longrightarrow> c \<notin> set n"
  by (auto simp: names_avoid_def list_all_iff)

lemma demojize_with_avoids:
  "names_avoid c tbl \<Longrightarrow> c \<notin> set s \<Longrightarrow> c \<notin> set (demojize_with tbl s)"
proof (induction tbl s rule: demojize_with.induct)
  case (1 tbl)
  then show ?case by simp
next
  case (2 tbl d ds)
  show ?case
  proof (cases "emoji_at tbl (d # ds)")
    case None
    with 2 show ?thesis by simp
  next
    case (Some e)
    obtain k n where e: "e = (k, n)" by (cases e)
    have "c \<notin> set n"
      using 2(3) Some e by (auto dest: emoji_at_in_table names_avoid_entry)
    moreover have "c \<notin> set (drop (length k - 1) ds)"
      using 2(4) by (auto dest: in_set_dropD)
    then have "c \<notin> set (demojize_with tbl (drop (length k - 1) ds))"
      using 2(2) [OF Some e [symmetric]] 2(3) e by simp
    ultimately show ?thesis using Some e by simp
  qed
qed

lemma tag_free_append:
  "60 \<notin> set n \<Longrightarrow> re_search tag_re (n @ x) = re_search tag_re x"
  by (induction n) (simp_all add: re_search_tag_Cons del: re_search.simps)

lemma demojize_with_tag_free:
  "names_avoid 60 tbl \<Longrightarrow> names_avoid 62 tbl \<Longrightarrow> \<not> re_search tag_re s \<Longrightarrow>
   \<not> re_search tag_re (demojize_with tbl s)"
proof (induction tbl s rule: demojize_with.induct)
  case (1 tbl)
  then show ?case by (simp add: re_search_tag_Nil del: re_search.simps)
next
  case (2 tbl d ds)
  from 2(5) have here: "\<not> (d = 60 \<and> 62 \<in> set ds)" and later: "\<not> re_search tag_re ds"
    by (simp_all add: re_search_tag_Cons del: re_search.simps)
  show ?case
  proof (cases "emoji_at tbl (d # ds)")
    case None
    have "\<not> re_search tag_re (demojize_with tbl ds)"
      using 2(1) [OF None] 2(3,4) later by simp
    moreover have "d = 60 \<Longrightarrow> 62 \<notin> set (demojize_with tbl ds)"
      using here 2(4) demojize_with_avoids [of 62 tbl ds] by auto
    ultimately show ?thesis
      using None by (auto simp: re_search_tag_Cons simp del: re_search.simps)
  next
    case (Some e)
    obtain k n where e: "e = (k, n)" by (cases e)
    have n: "60 \<notin> set n"
      using 2(3) Some e by (auto dest: emoji_at_in_table names_avoid_entry)
    have "subseq (drop (length k - 1) ds) ds"
      by (simp add: suffix_drop suffix_imp_subseq)
    then have "\<not> re_search tag_re (drop (length k - 1) ds)"
      using later by (rule tag_free_subseq)
    then have "\<not> re_search tag_re (demojize_with tbl (drop (length k - 1) ds))"
      using 2(2) [OF Some e [symmetric]] 2(3,4) by simp
    then show ?thesis
      using Some e by (simp add: tag_free_append [OF n] del: re_search.simps)
  qed
qed

lemma emoji_data_names:
  "names_avoid 10 emoji_data" "names_avoid 60 emoji_data" "names_avoid 62 emoji_data"
  by (simp_all add: names_avoid_def emoji_data_def ustr_def ord_def)

lemma demojize_ascii:
  "demojize_with emoji_data (ustr ''Hi there'') = ustr ''Hi there''"
  by (simp add: emoji_data_def emoji_at_def ustr_def ord_def)

theorem preprocess_text_removes_tags_and_newlines_witness:
  "before_demojize (ustr ''<p>Hi</p>'' @ [10] @ ustr ''there'') = ustr ''Hi there'' \<and>
   demojize_with emoji_data (ustr ''Hi there'') = ustr ''Hi there'' \<and>
   preprocess_text (demojize_with emoji_data) (ustr ''<p>Hi</p>'' @ [10] @ ustr ''there'') = ustr ''Hi there'' \<and>
   \<not> re_search tag_re (preprocess_text (demojize_with emoji_data) (ustr ''<p>Hi</p>'' @ [10] @ ustr ''there'')) \<and>
   10 \<notin> set (preprocess_text (demojize_with emoji_data) (ustr ''<p>Hi</p>'' @ [10] @ ustr ''there'')) \<and>
   subseq (preprocess_text (demojize_with emoji_data) (ustr ''<p>Hi</p>'' @ [10] @ ustr ''there''))
     (replace_newlines (ustr ''<p>Hi</p>'' @ [10] @ ustr ''there''))"
proof -
  let ?s = "ustr ''<p>Hi</p>'' @ [10] @ ustr ''there''"
  have tags: "\<forall>t. \<not> re_search tag_re t \<longrightarrow> \<not> re_search tag_re (demojize_with emoji_data t)"
    using emoji_data_names demojize_with_tag_free by blast
  have lines: "\<forall>t. 10 \<notin> set t \<longrightarrow> 10 \<notin> set (demojize_with emoji_data t)"
    using emoji_data_names demojize_with_avoids by blast
  have b: "before_demojize ?s = ustr ''Hi there''"
    by (simp add: before_demojize_def ev)
  have p: "preprocess_text (demojize_with emoji_data) ?s = ustr ''Hi there''"
    unfolding preprocess_text_stages b demojize_ascii by (simp add: ev)
  have fixed: "demojize_with emoji_data (before_demojize ?s) = before_demojize ?s"
    unfolding b by (rule demojize_ascii)
  show ?thesis
    using preprocess_text_removes_tags_and_newlines [OF tags lines, of ?s] fixed b p demojize_ascii
    by simp
qed

theorem preprocess_text_counterexample:
  "re_search url_re (preprocess_text (demojize_with emoji_data) (ustr ''<b>ht:a:tp://x</b>'')) \<and>
   preprocess_text (demojize_with emoji_data) (ustr ''<b>ht:a:tp://x</b>'') = ustr ''http://x'' \<and>
   preprocess_text (demojize_with emoji_data) (ustr ''<b>see :note: here</b>'') = ustr ''see  here''"
  by (simp add: ev emoji_data_def emoji_at_def)

section \<open>Collapsing and trimming white space\<close>

lemma star_matches_head: "\<exists>rest. star_matches p s = dropWhile p s # rest"
  by (induction s) auto

lemma re_match_ws:
  "re_match ws_re (c # cs) = (if is_space c then Some (dropWhile is_space cs) else None)"
  using star_matches_head [of is_space cs] by (auto simp: re_match_def ws_re_def)

lemma collapse_Nil: "collapse_whitespace [] = []"
  by (simp add: collapse_whitespace_def)

lemma collapse_Cons:
  "collapse_whitespace (c # cs) =
     (if is_space c then 32 # collapse_whitespace (dropWhile is_space cs)
      else c # collapse_whitespace cs)"
  by (simp add: collapse_whitespace_def re_match_ws length_dropWhile_le)

lemma collapse_head:
  "s \<noteq> [] \<Longrightarrow> \<not> is_space (hd s) \<Longrightarrow>
   collapse_whitespace s \<noteq> [] \<and> hd (collapse_whitespace s) = hd s"
  by (cases s) (simp_all add: collapse_Cons)

lemma collapse_start:
  "r = [] \<or> \<not> is_space (hd r) \<Longrightarrow>
   collapse_whitespace r = [] \<or> \<not> is_space (hd (collapse_whitespace r))"
  by (cases r) (simp_all add: collapse_Nil collapse_Cons)

lemma dropWhile_head: "dropWhile P s = [] \<or> \<not> P (hd (dropWhile P s))"
  using hd_dropWhile [of P s] by blast

lemma collapsed_collapse: "collapsed (collapse_whitespace s)"
proof (induction s rule: length_induct)
  case (1 s)
  show ?case
  proof (cases s)
    case Nil
    then show ?thesis by (simp add: collapse_Nil)
  next
    case (Cons c cs)
    show ?thesis
    proof (cases "is_space c")
      case True
      let ?r = "dropWhile is_space cs"
      have "length ?r < length s"
        using Cons length_dropWhile_le [of is_space cs] by simp
      then have ih: "collapsed (collapse_whitespace ?r)"
        using 1 by blast
      have "collapse_whitespace ?r = [] \<or> \<not> is_space (hd (collapse_whitespace ?r))"
        using dropWhile_head by (rule collapse_start)
      then show ?thesis
        using ih True by (simp add: Cons collapse_Cons is_space_def)
    next
      case False
      have "collapsed (collapse_whitespace cs)"
        using 1 Cons by simp
      then show ?thesis
        using False by (simp add: Cons collapse_Cons)
    qed
  qed
qed

lemma dropWhile_start: "s = [] \<or> \<not> P (hd s) \<Longrightarrow> dropWhile P s = s"
  by (cases s) auto

lemma collapse_collapsed: "collapsed t \<Longrightarrow> collapse_whitespace t = t"
proof (induction t)
  case Nil
  then show ?case by (simp add: collapse_Nil)
next
  case (Cons c cs)
  then have ih: "collapse_whitespace cs = cs" by simp
  show ?case
  proof (cases "is_space c")
    case True
    then have "c = 32" "cs = [] \<or> \<not> is_space (hd cs)"
      using Cons.prems by simp_all
    then show ?thesis
      using True ih by (simp add: collapse_Cons dropWhile_start)
  next
    case False
    then show ?thesis using ih by (simp add: collapse_Cons)
  qed
qed

lemma collapsed_dropWhile: "collapsed t \<Longrightarrow> collapsed (dropWhile P t)"
  by (induction t) auto

lemma rstrip_head: "rstrip t \<noteq> [] \<Longrightarrow> hd (rstrip t) = hd t"
  by (cases t) (auto split: if_splits)

lemma rstrip_Nil_iff: "rstrip t \<noteq> [] \<Longrightarrow> t \<noteq> []"
  by auto

lemma collapsed_rstrip: "collapsed t \<Longrightarrow> collapsed (rstrip t)"
proof (induction t)
  case Nil
  then show ?case by simp
next
  case (Cons c cs)
  then have ih: "collapsed (rstrip cs)" by simp
  show ?case
  proof (cases "is_space c \<and> rstrip cs = []")
    case True
    then show ?thesis by simp
  next
    case False
    have "rstrip cs = [] \<or> \<not> is_space (hd (rstrip cs))" if "is_space c"
    proof (cases "rstrip cs = []")
      case True
      then show ?thesis by simp
    next
      case ne: False
      then have "cs \<noteq> []" by auto
      then have "\<not> is_space (hd cs)" using Cons.prems that by simp
      then show ?thesis using rstrip_head [OF ne] by simp
    qed
    then show ?thesis
      using False ih Cons.prems by auto
  qed
qed

lemma rstrip_idem: "rstrip (rstrip t) = rstrip t"
  by (induction t) auto

lemma strip_start: "strip s = [] \<or> \<not> is_space (hd (strip s))"
proof (cases "strip s = []")
  case True
  then show ?thesis by simp
next
  case False
  then have ne: "rstrip (dropWhile is_space s) \<noteq> []" by (simp add: strip_def)
  then have "dropWhile is_space s \<noteq> []" by (rule rstrip_Nil_iff)
  then have "\<not> is_space (hd (dropWhile is_space s))" by (rule hd_dropWhile)
  then show ?thesis using rstrip_head [OF ne] by (simp add: strip_def)
qed

lemma strip_fixed: "strip (strip s) = strip s"
proof -
  have "dropWhile is_space (strip s) = strip s"
    using strip_start by (rule dropWhile_start)
  then show ?thesis
    by (simp add: strip_def [of "strip s"]) (simp add: strip_def rstrip_idem)
qed

lemma collapsed_strip: "collapsed t \<Longrightarrow> collapsed (strip t)"
  unfolding strip_def by (intro collapsed_rstrip collapsed_dropWhile)

lemma collapsed_no_newline: "collapsed t \<Longrightarrow> 10 \<notin> set t"
  by (induction t) (auto simp: is_space_def split: if_splits)

lemma strip_collapse_fixed:
  "strip (collapse_whitespace (strip (collapse_whitespace x))) = strip (collapse_whitespace x)"
proof -
  have "collapsed (strip (collapse_whitespace x))"
    using collapsed_collapse by (rule collapsed_strip)
  then have "collapse_whitespace (strip (collapse_whitespace x)) = strip (collapse_whitespace x)"
    by (rule collapse_collapsed)
  then show ?thesis by (simp add: strip_fixed)
qed

lemma preprocess_text_fixed:
  assumes "no_constructs demojize t" "10 \<notin> set t"
  shows "preprocess_text demojize t = t"
proof -
  have "before_demojize t = t"
    using assms by (simp add: before_demojize_def no_constructs_def re_sub_no_match
        replace_newlines_id)
  then show ?thesis
    using assms(1) by (simp add: preprocess_text_stages no_constructs_def re_sub_no_match)
qed

text \<open>
  C3. Collapsing and trimming is idempotent on its own, and a second run of the whole
  pipeline changes nothing when the first result holds no tag, URL, copyright marker or
  \<open>:name:\<close> token and demojize leaves it as it is.
\<close>

theorem normalize_and_collapse_twice:
  "strip (collapse_whitespace (strip (collapse_whitespace x))) = strip (collapse_whitespace x) \<and>
   (no_constructs demojize (normalize_and_collapse demojize s) \<longrightarrow>
      normalize_and_collapse demojize (normalize_and_collapse demojize s) =
        normalize_and_collapse demojize s)"
proof -
  let ?t = "normalize_and_collapse demojize s"
  have "collapsed ?t"
    unfolding normalize_and_collapse_def using collapsed_collapse by (rule collapsed_strip)
  then have nl: "10 \<notin> set ?t" by (rule collapsed_no_newline)
  have "normalize_and_collapse demojize ?t = ?t" if "no_constructs demojize ?t"
  proof -
    have "preprocess_text demojize ?t = ?t"
      using that nl by (rule preprocess_text_fixed)
    then have "normalize_and_collapse demojize ?t = strip (collapse_whitespace ?t)"
      by (simp add: normalize_and_collapse_def)
    also have "\<dots> = ?t"
      unfolding normalize_and_collapse_def by (rule strip_collapse_fixed)
    finally show ?thesis .
  qed
  then show ?thesis
    using strip_collapse_fixed by blast
qed

theorem normalize_and_collapse_twice_witness:
  "normalize_and_collapse (demojize_with emoji_data) scenario_body = ustr ''Hello'' \<and>
   no_constructs (demojize_with emoji_data) (ustr ''Hello'') \<and>
   normalize_and_collapse (demojize_with emoji_data) (ustr ''Hello'') = ustr ''Hello''"
proof -
  have clean: "no_constructs (demojize_with emoji_data) (ustr ''Hello'')"
    by (simp add: no_constructs_def ev emoji_data_def emoji_at_def)
  show ?thesis
    using clean sample_normalised
      normalize_and_collapse_twice [of "[]" "demojize_with emoji_data" scenario_body]
    by simp
qed

theorem normalize_and_collapse_counterexample:
  "normalize_and_collapse (demojize_with emoji_data)
     (normalize_and_collapse (demojize_with emoji_data) (ustr ''::a:b:'')) \<noteq>
   normalize_and_collapse (demojize_with emoji_data) (ustr ''::a:b:'') \<and>
   normalize_and_collapse (demojize_with emoji_data) (ustr ''::a:b:'') = ustr '':b:'' \<and>
   normalize_and_collapse (demojize_with emoji_data) (ustr '':b:'') = []"
  by (simp add: ev emoji_data_def emoji_at_def)

section \<open>The patterns match no empty string\<close>

lemma suffix_length_less: "suffix t (x # xs) \<Longrightarrow> t \<noteq> x # xs \<Longrightarrow> length t \<le> length xs"
  by (auto simp: suffix_Cons dest: suffix_length_le)

lemma never_empty_matches:
  "never_empty r \<Longrightarrow> t \<in> set (matches r s) \<Longrightarrow> length t < length s"
proof (induction r arbitrary: s t)
  case (Chr c)
  then show ?case by (auto split: list.splits if_splits)
next
  case (Str w)
  then show ?case by (auto simp: prefix_def split: if_splits)
next
  case (Cls p)
  then show ?case by (auto split: list.splits if_splits)
next
  case (Star p)
  then show ?case by simp
next
  case (Plus p)
  then show ?case
    by (auto dest!: star_matches_suffix suffix_length_le split: list.splits if_splits)
next
  case (Seq r1 r2)
  from Seq.prems obtain u where u: "u \<in> set (matches r1 s)" "t \<in> set (matches r2 u)"
    by auto
  have "length u \<le> length s" "length t \<le> length u"
    using u by (auto dest!: matches_suffix suffix_length_le)
  moreover have "length u < length s \<or> length t < length u"
    using Seq.prems(1) Seq.IH u by auto
  ultimately show ?case by linarith
next
  case (Alt r1 r2)
  then show ?case by auto
qed

lemma patterns_never_empty:
  "never_empty tag_re" "never_empty url_re" "never_empty copyright_re" "never_empty token_re"
  "never_empty ws_re"
  by (simp_all add: tag_re_def url_re_def copyright_re_def token_re_def ws_re_def ustr_def)

lemma re_sub_never_empty:
  "never_empty r \<Longrightarrow> re_sub r repl (c # cs) =
     (case re_match r (c # cs) of None \<Rightarrow> c # re_sub r repl cs | Some t \<Rightarrow> repl @ re_sub r repl t)"
proof -
  assume ne: "never_empty r"
  have "length t \<le> length cs" if "re_match r (c # cs) = Some t" for t
  proof -
    from that have "t \<in> set (matches r (c # cs))"
      by (auto simp: re_match_def split: list.splits)
    with ne have "length t < length (c # cs)" by (rule never_empty_matches)
    then show ?thesis by simp
  qed
  then show ?thesis by (auto split: option.splits)
qed

section \<open>The depth bound\<close>

text \<open>A crawl that ends within some depth ends the same way within any greater depth.\<close>

lemma depth_mono:
  shows "process_directory n net demojize headers r p st = Some st' \<Longrightarrow>
         process_directory (Suc n) net demojize headers r p st = Some st'"
    and "process_entries n net demojize headers r fs st = Some st' \<Longrightarrow>
         process_entries (Suc n) net demojize headers r fs st = Some st'"
proof (induction n net demojize headers r p st and n net demojize headers r fs st
       arbitrary: st' and st' rule: process_directory_process_entries.induct)
  case (1 net demojize headers repo_info p st)
  then show ?case by simp
next
  case (2 n net demojize headers repo_info p st)
  show ?case
  proof (cases "basename p = ustr ''zh''")
    case True
    with "2.prems" show ?thesis by simp
  next
    case False
    let ?rq = "Get (base_url repo_info @ p) headers"
    let ?st2 = "issue ?rq (emit (Processing p (repo repo_info)) st)"
    show ?thesis
    proof (cases "status_code (net ?rq) = 200")
      case True
      from "2.prems" False True obtain st3 where
        st3: "process_entries n net demojize headers repo_info (response_json (net ?rq)) ?st2 = Some st3"
        and st': "st' = emit (Finished p) st3"
        by (auto simp: Let_def split: option.splits)
      have "process_entries (Suc n) net demojize headers repo_info (response_json (net ?rq)) ?st2 = Some st3"
        using "2.IH" [OF False refl refl refl refl True st3] .
      then show ?thesis
        using False True st' by (simp add: Let_def)
    next
      case no: False
      with "2.prems" False show ?thesis by (simp add: Let_def)
    qed
  qed
next
  case (3 n net demojize headers repo_info st)
  then show ?case by simp
next
  case (4 n net demojize headers repo_info f fs st)
  show ?case
  proof (cases "is_markdown f")
    case True
    with "4.IH"(1) [OF True] "4.prems" show ?thesis by simp
  next
    case False
    show ?thesis
    proof (cases "entry_type f = ustr ''dir''")
      case True
      from "4.prems" False True obtain st1 where
        st1: "process_directory n net demojize headers repo_info (entry_path f) st = Some st1"
        and rest: "process_entries n net demojize headers repo_info fs st1 = Some st'"
        by (auto split: option.splits)
      have "process_directory (Suc n) net demojize headers repo_info (entry_path f) st = Some st1"
        using "4.IH"(2) [OF False True st1] .
      moreover have "process_entries (Suc n) net demojize headers repo_info fs st1 = Some st'"
        using "4.IH"(3) [OF False True st1 rest] .
      ultimately show ?thesis
        using False True by (simp del: process_directory.simps)
    next
      case other: False
      with "4.IH"(4) [OF False other] "4.prems" False show ?thesis by simp
    qed
  qed
qed

lemma depth_enough:
  "process_directory n net demojize headers r p st = Some st' \<Longrightarrow>
   process_directory (n + k) net demojize headers r p st = Some st'"
  by (induction k) (simp_all add: depth_mono(1) del: process_directory.simps)

end
